theory Spec2Isabelle
  imports Main "HOL-Library.Sublist" "HOL-Library.Char_ord" "HOL-Library.List_Lexorder"
    "HOL-Library.Multiset"
begin

section \<open>Data model of \<open>cmd/changelog/generate.go\<close>\<close>

text \<open>
  The file under study has three functions: \<open>Config.Sanitize\<close>, \<open>GenerateReleaseNotes\<close>
  (the commit walk, classification and persistence glue) and
  \<open>ChangeLog.PrintReleaseNotes\<close> (the note aggregator). Go strings are byte strings and
  are modelled as \<open>string\<close>; Go \<open>int\<close> values (pull-request numbers) are only compared and
  printed, never computed with, and are modelled as \<open>int\<close>.
\<close>

record Config =
  Base :: string
  Head :: string
  LastStable :: string
  StateFile :: string
  RepoName :: string
  Owner :: string
  Repo :: string
  CurrVer :: string
  NextVer :: string
  ForceMovePending :: bool

text \<open>
  \<open>types.PullRequest\<close> is declared in \<open>pkg/types\<close>; the four fields below are the ones
  this file reads. \<open>types.PullRequests\<close> is \<open>map[int]PullRequest\<close> and
  \<open>types.BackportPRs\<close> is \<open>map[int]PullRequests\<close>. A Go map is modelled as an association
  list with distinct keys: the order of the list is the (unspecified) order in which
  \<open>range\<close> visits the entries, so a statement proved for every list holds for every
  iteration order. Every backport PR owns its inner mapping (no two keys of the outer
  map share one inner map object).
\<close>

record PullRequest =
  ReleaseNote :: string
  ReleaseLabel :: string
  AuthorName :: string
  BackportBranches :: "string list"

type_synonym PullRequests = "(int \<times> PullRequest) list"
type_synonym BackportPRs = "(int \<times> PullRequests) list"

record ChangeLog =
  config :: Config
  prsWithUpstream :: BackportPRs
  listOfPrs :: PullRequests

text \<open>
  Every error the file returns is a constructor; the payloads are the values the Go
  code formats into the message. \<open>IndexOutOfRange\<close> is not a returned error but the Go
  runtime panic raised by an index expression outside \<open>0 \<le> i < len\<close>.
\<close>

datatype error =
    InvalidRepoName string
  | BaseEmpty
  | HeadEmpty
  | StateFileEmpty
  | LastStableLetters
  | ReadPersistenceFailed string
  | CompareCommitsFailed string string string
  | RetrievePRsFailed string
  | IndexOutOfRange

section \<open>String helpers of the Go standard library\<close>

text \<open>\<open>strings.Split(s, sep)\<close> for a one-byte separator: one more part than separators.\<close>

fun Split :: "string \<Rightarrow> char \<Rightarrow> string list" where
  "Split [] sep = [[]]"
| "Split (c # cs) sep =
     (if c = sep then [] # Split cs sep
      else (case Split cs sep of [] \<Rightarrow> [[c]] | p # ps \<Rightarrow> (c # p) # ps))"

text \<open>\<open>strings.Contains(s, substr)\<close>.\<close>

fun Contains :: "string \<Rightarrow> string \<Rightarrow> bool" where
  "Contains [] substr = (substr = [])"
| "Contains (c # cs) substr = (prefix substr (c # cs) \<or> Contains cs substr)"

text \<open>
  \<open>strings.ToLower\<close> maps every Unicode letter of a UTF-8 string to its lower case. The
  model does not define it: the functions that sort take it as the parameter \<open>lower\<close>,
  and nothing is assumed about it.
\<close>

text \<open>The verb \<open>%d\<close> of \<open>fmt\<close>: decimal digits, with a minus sign for negative numbers.\<close>

fun digits :: "nat \<Rightarrow> string" where
  "digits n =
     (if n < 10 then [char_of (48 + n)] else digits (n div 10) @ [char_of (48 + n mod 10)])"

definition itoa :: "int \<Rightarrow> string" where
  "itoa i = (if i < 0 then CHR ''-'' # digits (nat (- i)) else digits (nat i))"

section \<open>\<open>Config.Sanitize\<close>\<close>

text \<open>
  \<open>func (cfg Config) Sanitize() error\<close> has a value receiver: the body works on its own
  copy of the configuration. \<open>Sanitize\<close> runs the body on that copy and returns the final
  value of the copy together with the returned error (\<open>None\<close> is \<open>nil\<close>).
\<close>

definition Sanitize :: "Config \<Rightarrow> Config \<times> error option" where
  "Sanitize cfg =
     (let ownerRepo = Split (RepoName cfg) CHR ''/'' in
      if length ownerRepo \<noteq> 2 then (cfg, Some (InvalidRepoName (RepoName cfg)))
      else
        let cfg = cfg\<lparr>Owner := ownerRepo ! 0\<rparr>;
            cfg = cfg\<lparr>Repo := ownerRepo ! 1\<rparr>
        in
          if length (Base cfg) = 0 \<and> length (CurrVer cfg) = 0 then (cfg, Some BaseEmpty)
          else if length (Head cfg) = 0 \<and> length (CurrVer cfg) = 0 then (cfg, Some HeadEmpty)
          else if length (StateFile cfg) = 0 then (cfg, Some StateFileEmpty)
          else if Contains (LastStable cfg) ''v'' then (cfg, Some LastStableLetters)
          else (cfg, None))"

text \<open>
  A call \<open>c.Sanitize()\<close> where the caller's configuration lives in the memory cell \<open>a\<close>:
  the receiver is a fresh cell initialised with a copy of the caller's value, the body
  writes to the receiver cell only, and the error is returned. \<open>cells\<close> maps addresses to
  the configurations stored there and \<open>free\<close> is the first address not yet allocated.
\<close>

record memory =
  cells :: "nat \<Rightarrow> Config"
  free :: nat

definition call_Sanitize :: "nat \<Rightarrow> memory \<Rightarrow> memory \<times> error option" where
  "call_Sanitize a m =
     (let receiver = free m;
          m = m\<lparr>cells := (cells m)(receiver := cells m a), free := Suc receiver\<rparr>;
          (cfg, err) = Sanitize (cells m receiver)
      in (m\<lparr>cells := (cells m)(receiver := cfg)\<rparr>, err))"

section \<open>The commit walk of \<open>GenerateReleaseNotes\<close>\<close>

text \<open>
  The local variables of the walk (lines 101 and 113 to 114) and \<open>wcfg\<close>, the function's
  copy of the configuration, whose \<open>Head\<close> the loop overwrites. A commit of a
  comparison response is modelled by the result of its \<open>GetSHA()\<close>, which is the empty
  string when the commit carries no SHA.
\<close>

record walk_state =
  wcfg :: Config
  shas :: "string list"
  cont :: bool
  prevHead :: string

text \<open>
  The inner loop \<open>for i := start; i != 0; i-- { ... }\<close> of lines 144 to 149. A negative or
  too large index makes \<open>cc.Commits[i]\<close> panic, so the loop always ends.
\<close>

function append_shas :: "string list \<Rightarrow> int \<Rightarrow> string list \<Rightarrow> error + string list" where
  "append_shas commits i acc =
     (if i = 0 then Inr acc
      else if i < 0 \<or> int (length commits) \<le> i then Inl IndexOutOfRange
      else
        let sha = commits ! nat i in
        append_shas commits (i - 1) (if sha \<noteq> [] then acc @ [sha] else acc))"
  by pat_completeness auto
termination
  by (relation "measure (\<lambda>(commits, i, acc). nat i)") auto

declare append_shas.simps [simp del]

text \<open>
  One pass through the body of the outer loop after a successful comparison (lines 122
  to 152), given the commits of the response. The boolean of the result is \<open>True\<close> when
  the pass left the loop through \<open>break\<close>.
\<close>

definition walk_iteration :: "walk_state \<Rightarrow> string list \<Rightarrow> error + (bool \<times> walk_state)" where
  "walk_iteration st commits =
     (if commits = [] then Inl IndexOutOfRange
      else if prevHead st = last commits then
        let sha = hd commits in
        Inr (True, if sha \<noteq> [] then st\<lparr>shas := shas st @ [sha]\<rparr> else st)
      else
        let start = int (length commits) - 1;
            start = (if cont st then start - 1 else start)
        in
          case append_shas commits start (shas st) of
            Inl e \<Rightarrow> Inl e
          | Inr acc \<Rightarrow>
              if acc = [] then Inl IndexOutOfRange
              else Inr (False, st\<lparr>wcfg := (wcfg st)\<lparr>Head := last acc\<rparr>, shas := acc,
                                  cont := True, prevHead := last commits\<rparr>))"

section \<open>Collaborators and observable effects\<close>

text \<open>
  The collaborators of \<open>GenerateReleaseNotes\<close> are parameters of the model. Their errors
  are represented by their messages.
  \<^item> \<open>StatFile path\<close>: \<open>os.Stat(path)\<close> returned no error.
  \<^item> \<open>LoadState path\<close>: the result of \<open>persistence.LoadState\<close>.
  \<^item> \<open>CompareCommits n owner repo base head\<close>: the result of the \<open>n\<close>-th call (counted
    from 0) of \<open>ghClient.Repositories.CompareCommits\<close> with these arguments: the error,
    or the SHAs of \<open>cc.Commits\<close> in the order of the response. The remote service may
    answer the same request differently at different times, hence the call number.
  \<^item> \<open>GeneratePatchRelease owner repo backportPRs listOfPRs shas\<close>: the three values
    returned by \<open>github.GeneratePatchRelease\<close> and its error.
  \<^item> \<open>StoreState path backportPRs listOfPRs shas\<close>: the error of
    \<open>persistence.StoreState\<close>.
\<close>

record env =
  StatFile :: "string \<Rightarrow> bool"
  LoadState :: "string \<Rightarrow> string + (BackportPRs \<times> PullRequests \<times> string list)"
  CompareCommits :: "nat \<Rightarrow> string \<Rightarrow> string \<Rightarrow> string \<Rightarrow> string \<Rightarrow> string + string list"
  GeneratePatchRelease ::
    "string \<Rightarrow> string \<Rightarrow> BackportPRs \<Rightarrow> PullRequests \<Rightarrow> string list
      \<Rightarrow> (BackportPRs \<times> PullRequests \<times> string list) \<times> string option"
  StoreState :: "string \<Rightarrow> BackportPRs \<Rightarrow> PullRequests \<Rightarrow> string list \<Rightarrow> string option"

text \<open>
  What a run does to the outside, in order: the messages handed to \<open>printer\<close>, the lines
  printed with \<open>fmt.Println\<close>, the calls of \<open>fmt.Fprintf(os.Stderr, format, operands...)\<close>
  each as the pair of its format string and its operands (the text that reaches the
  error stream is what \<open>fmt\<close> makes of the pair; lines 257 and 270 pass a header or an
  item as the format string, with no operand), the \<open>(base, head)\<close> pairs that were
  compared, and the arguments of the calls of \<open>persistence.StoreState\<close>.
\<close>

record effects =
  printed :: "string list"
  stdout :: "string list"
  stderr :: "(string \<times> string list) list"
  compared :: "(string \<times> string) list"
  stored :: "(string \<times> BackportPRs \<times> PullRequests \<times> string list) list"

definition no_effects :: effects where
  "no_effects = \<lparr>printed = [], stdout = [], stderr = [], compared = [], stored = []\<rparr>"

definition printer :: "string \<Rightarrow> effects \<Rightarrow> effects" where
  "printer s fx = fx\<lparr>printed := printed fx @ [s]\<rparr>"

definition Println :: "string \<Rightarrow> effects \<Rightarrow> effects" where
  "Println s fx = fx\<lparr>stdout := stdout fx @ [s]\<rparr>"

definition Fprintf_stderr :: "string \<Rightarrow> string list \<Rightarrow> effects \<Rightarrow> effects" where
  "Fprintf_stderr format operands fx = fx\<lparr>stderr := stderr fx @ [(format, operands)]\<rparr>"

section \<open>\<open>GenerateReleaseNotes\<close>\<close>

text \<open>
  The loop \<open>for { ... }\<close> of lines 116 to 153. Nothing bounds the number of comparisons,
  so the model takes fuel: \<open>None\<close> means that the loop is still running after \<open>fuel\<close>
  comparisons. A failed comparison returns from \<open>GenerateReleaseNotes\<close> at once (line
  120). \<open>log_compare\<close> records the message of line 117 and the request of line 118.
\<close>

definition log_compare :: "Config \<Rightarrow> effects \<Rightarrow> effects" where
  "log_compare c fx =
     (printer (''Comparing '' @ Base c @ ''...'' @ Head c @ ''\<newline>'') fx)
       \<lparr>compared := compared fx @ [(Base c, Head c)]\<rparr>"

fun commit_walk :: "nat \<Rightarrow> env \<Rightarrow> walk_state \<Rightarrow> effects \<Rightarrow> ((error + walk_state) \<times> effects) option" where
  "commit_walk 0 E st fx = None"
| "commit_walk (Suc fuel) E st fx =
     (let c = wcfg st;
          n = length (compared fx);
          fx = log_compare c fx
      in
        case CompareCommits E n (Owner c) (Repo c) (Base c) (Head c) of
          Inl err \<Rightarrow> Some (Inl (CompareCommitsFailed (Base c) (Head c) err), fx)
        | Inr commits \<Rightarrow>
            (case walk_iteration st commits of
               Inl e \<Rightarrow> Some (Inl e, fx)
             | Inr (True, st') \<Rightarrow> Some (Inr st', fx)
             | Inr (False, st') \<Rightarrow> commit_walk fuel E st' fx))"

text \<open>
  The variables of the loop and the effects so far when the loop is about to compare for
  the \<open>k\<close>-th time after the start, that is, after \<open>k\<close> passes that all reached line 152;
  \<open>None\<close> when the loop has ended before.
\<close>

fun walk_after :: "nat \<Rightarrow> env \<Rightarrow> walk_state \<Rightarrow> effects \<Rightarrow> (walk_state \<times> effects) option" where
  "walk_after 0 E st fx = Some (st, fx)"
| "walk_after (Suc k) E st fx =
     (let c = wcfg st;
          n = length (compared fx);
          fx = log_compare c fx
      in
        case CompareCommits E n (Owner c) (Repo c) (Base c) (Head c) of
          Inl err \<Rightarrow> None
        | Inr commits \<Rightarrow>
            (case walk_iteration st commits of
               Inl e \<Rightarrow> None
             | Inr (True, st') \<Rightarrow> None
             | Inr (False, st') \<Rightarrow> walk_after k E st' fx))"

text \<open>Lines 156 to 179: classification, the single call of \<open>StoreState\<close>, and the result.\<close>

definition classify_and_store ::
  "env \<Rightarrow> Config \<Rightarrow> BackportPRs \<Rightarrow> PullRequests \<Rightarrow> string list \<Rightarrow> effects
    \<Rightarrow> (error + ChangeLog) \<times> effects" where
  "classify_and_store E c backportPRs listOfPRs hashes fx =
     (let fx = printer (''Found '' @ itoa (int (length hashes)) @ '' commits!\<newline>'') fx;
          ((upstream, prs, leftShas), err) =
             GeneratePatchRelease E (Owner c) (Repo c) backportPRs listOfPRs hashes;
          fx = Println [] fx;
          fx = (if err \<noteq> None
                then printer (''Storing state in '' @ StateFile c
                              @ '' before exiting due to error...\<newline>'') fx
                else fx);
          err2 = StoreState E (StateFile c) upstream prs leftShas;
          fx = fx\<lparr>stored := stored fx @ [(StateFile c, upstream, prs, leftShas)]\<rparr>;
          fx = (case err2 of
                  None \<Rightarrow> printer (''State stored successful in '' @ StateFile c
                                  @ '', please use --state-file='' @ StateFile c
                                  @ '' in the next run to continue\<newline>'') fx
                | Some e2 \<Rightarrow> printer (''Unable to store state: '' @ e2 @ '' + \<newline>'') fx)
      in
        case err of
          Some e \<Rightarrow> (Inl (RetrievePRsFailed e), fx)
        | None \<Rightarrow>
            (Inr \<lparr>config = c, prsWithUpstream = upstream, listOfPrs = prs\<rparr>,
             printer (''\<newline>Found '' @ itoa (int (length prs)) @ '' PRs and ''
                      @ itoa (int (length upstream)) @ '' backport PRs!\<newline>\<newline>'') fx))"

text \<open>
  Lines 104 to 154: the mappings and commit identifiers to classify, either loaded from
  the state file or found by the walk, with the configuration copy as the walk left it.
\<close>

definition collect_shas ::
  "nat \<Rightarrow> env \<Rightarrow> Config
    \<Rightarrow> ((error + (Config \<times> BackportPRs \<times> PullRequests \<times> string list)) \<times> effects) option" where
  "collect_shas fuel E c =
     (if StatFile E (StateFile c) then
        let fx = printer ''Found state file, resuming from stored state\<newline>'' no_effects in
        case LoadState E (StateFile c) of
          Inl err \<Rightarrow> Some (Inl (ReadPersistenceFailed err), fx)
        | Inr (backportPRs, listOfPRs, hashes) \<Rightarrow> Some (Inr (c, backportPRs, listOfPRs, hashes), fx)
      else
        case commit_walk fuel E \<lparr>wcfg = c, shas = [], cont = False, prevHead = []\<rparr> no_effects of
          None \<Rightarrow> None
        | Some (Inl e, fx) \<Rightarrow> Some (Inl e, fx)
        | Some (Inr st, fx) \<Rightarrow> Some (Inr (wcfg st, [], [], shas st), fx))"

text \<open>
  The whole function. \<open>fuel\<close> bounds the comparisons of the walk; the result is \<open>None\<close>
  only when the walk has not ended within that many comparisons. The messages that
  \<open>GeneratePatchRelease\<close> itself hands to \<open>printer\<close> are not part of \<open>printed\<close>.
\<close>

definition GenerateReleaseNotes ::
  "nat \<Rightarrow> env \<Rightarrow> Config \<Rightarrow> ((error + ChangeLog) \<times> effects) option" where
  "GenerateReleaseNotes fuel E c =
     (case collect_shas fuel E c of
        None \<Rightarrow> None
      | Some (Inl e, fx) \<Rightarrow> Some (Inl e, fx)
      | Some (Inr (c', backportPRs, listOfPRs, hashes), fx) \<Rightarrow>
          Some (classify_and_store E c' backportPRs listOfPRs hashes fx))"

section \<open>\<open>ChangeLog.PrintReleaseNotes\<close>\<close>

definition releaseNotes :: "(string \<times> string) list" where
  "releaseNotes =
     [(''release-note/major'', ''**Major Changes:**''),
      (''release-note/minor'', ''**Minor Changes:**''),
      (''release-note/bug'', ''**Bugfixes:**''),
      (''release-note/ci'', ''**CI Changes:**''),
      (''release-note/misc'', ''**Misc Changes:**''),
      (''release-note/none'', ''**Other Changes:**'')]"

definition releaseNotesOrder :: "string list" where
  "releaseNotesOrder =
     [''release-note/major'', ''release-note/minor'', ''release-note/bug'',
      ''release-note/ci'', ''release-note/misc'', ''release-note/none'']"

text \<open>\<open>releaseNotes[releaseLabel]\<close>: a missing key reads as the empty string.\<close>

definition header :: "string \<Rightarrow> string" where
  "header releaseLabel = (case map_of releaseNotes releaseLabel of None \<Rightarrow> [] | Some h \<Rightarrow> h)"

text \<open>\<open>delete(m, key)\<close> on a Go map.\<close>

definition delete_key :: "int \<Rightarrow> PullRequests \<Rightarrow> PullRequests" where
  "delete_key key m = filter (\<lambda>e. fst e \<noteq> key) m"

text \<open>The two \<open>fmt.Sprintf\<close> formats of lines 202 and 231 (and 262).\<close>

definition format_backport :: "int \<Rightarrow> int \<Rightarrow> PullRequest \<Rightarrow> string" where
  "format_backport backportPR prID pr =
     ''* '' @ ReleaseNote pr @ '' (Backport PR #'' @ itoa backportPR @ '', Upstream PR #''
       @ itoa prID @ '', @'' @ AuthorName pr @ '')''"

definition format_pr :: "int \<Rightarrow> PullRequest \<Rightarrow> string" where
  "format_pr prID pr =
     ''* '' @ ReleaseNote pr @ '' (#'' @ itoa prID @ '', @'' @ AuthorName pr @ '')''"

text \<open>
  Lines 213 to 218: the flag \<open>backported\<close> after the loop over \<open>pr.BackportBranches\<close>.
\<close>

definition backported :: "string \<Rightarrow> string list \<Rightarrow> bool" where
  "backported lastStable branches =
     fold (\<lambda>bb b. if Contains bb lastStable then True else b) branches False"

text \<open>
  Lines 212 to 222: whether the \<open>continue\<close> of line 220 is taken, that is, whether the
  pull request is left out as already released on the last stable branch.
\<close>

definition assumed_released :: "string \<Rightarrow> PullRequest \<Rightarrow> bool" where
  "assumed_released lastStable pr =
     (if length lastStable \<noteq> 0 then backported lastStable (BackportBranches pr) else False)"

text \<open>
  The \<open>range\<close> loops delete the entry they are visiting and no other, so every entry
  of the map as it was when the loop started is visited once. In the three loops below the
  first list argument holds the entries still to be visited and the tuple holds
  \<open>changelogItems\<close>, \<open>printedReleaseNoteHeader\<close>, the map being updated and the effects.

  Lines 190 to 206: one inner mapping of a backport PR.
\<close>

fun range_upstream ::
  "string \<Rightarrow> int \<Rightarrow> PullRequests \<Rightarrow> string list \<times> bool \<times> PullRequests \<times> effects
    \<Rightarrow> string list \<times> bool \<times> PullRequests \<times> effects" where
  "range_upstream releaseLabel backportPR [] s = s"
| "range_upstream releaseLabel backportPR ((prID, pr) # es) (items, printedHeader, m, fx) =
     (if ReleaseLabel pr \<noteq> releaseLabel
      then range_upstream releaseLabel backportPR es (items, printedHeader, m, fx)
      else
        let fx = (if \<not> printedHeader then Println (header releaseLabel) (Println [] fx) else fx)
        in range_upstream releaseLabel backportPR es
             (items @ [format_backport backportPR prID pr], True, delete_key prID m, fx))"

text \<open>Line 189: all backport PRs. The inner mappings are updated in place.\<close>

fun range_backports ::
  "string \<Rightarrow> BackportPRs \<Rightarrow> string list \<times> bool \<times> effects
    \<Rightarrow> string list \<times> bool \<times> BackportPRs \<times> effects" where
  "range_backports releaseLabel [] (items, printedHeader, fx) = (items, printedHeader, [], fx)"
| "range_backports releaseLabel ((backportPR, prs) # bs) (items, printedHeader, fx) =
     (let (items, printedHeader, prs, fx) =
            range_upstream releaseLabel backportPR prs (items, printedHeader, prs, fx);
          (items, printedHeader, bs, fx) =
            range_backports releaseLabel bs (items, printedHeader, fx)
      in (items, printedHeader, (backportPR, prs) # bs, fx))"

text \<open>Lines 208 to 234: the flat mapping \<open>cl.listOfPrs\<close>.\<close>

fun range_listOfPrs ::
  "string \<Rightarrow> string \<Rightarrow> PullRequests \<Rightarrow> string list \<times> bool \<times> PullRequests \<times> effects
    \<Rightarrow> string list \<times> bool \<times> PullRequests \<times> effects" where
  "range_listOfPrs releaseLabel lastStable [] s = s"
| "range_listOfPrs releaseLabel lastStable ((prID, pr) # es) (items, printedHeader, m, fx) =
     (if ReleaseLabel pr \<noteq> releaseLabel
      then range_listOfPrs releaseLabel lastStable es (items, printedHeader, m, fx)
      else if assumed_released lastStable pr
      then range_listOfPrs releaseLabel lastStable es (items, printedHeader, m, fx)
      else
        let fx = (if \<not> printedHeader then Println (header releaseLabel) (Println [] fx) else fx)
        in range_listOfPrs releaseLabel lastStable es
             (items @ [format_pr prID pr], True, delete_key prID m, fx))"

text \<open>
  Lines 235 to 237 and 266 to 268: \<open>sort.Slice\<close> with the comparison of the lower-cased
  strings, \<open>lower\<close> being \<open>strings.ToLower\<close>. \<open>sort.Slice\<close> is not stable; the model
  returns the stable result, which is one of the results it allows.
\<close>

definition sort_items :: "(string \<Rightarrow> string) \<Rightarrow> string list \<Rightarrow> string list" where
  "sort_items lower items = sort_key lower items"

text \<open>
  Lines 187 to 234 for one release label: the two scans. The result holds
  \<open>changelogItems\<close> as it is before sorting.
\<close>

definition collect_category :: "string \<Rightarrow> ChangeLog \<times> effects \<Rightarrow> string list \<times> ChangeLog \<times> effects" where
  "collect_category releaseLabel s =
     (let (c, fx) = s;
          (items, printedHeader, bs, fx) =
            range_backports releaseLabel (prsWithUpstream c) ([], False, fx);
          (items, printedHeader, prs, fx) =
            range_listOfPrs releaseLabel (LastStable (config c)) (listOfPrs c)
              (items, printedHeader, listOfPrs c, fx)
      in (items, c\<lparr>prsWithUpstream := bs, listOfPrs := prs\<rparr>, fx))"

text \<open>One pass of the loop of line 186.\<close>

definition print_category ::
  "(string \<Rightarrow> string) \<Rightarrow> string \<Rightarrow> ChangeLog \<times> effects \<Rightarrow> ChangeLog \<times> effects" where
  "print_category lower releaseLabel s =
     (let (items, c, fx) = collect_category releaseLabel s
      in (c, fold Println (sort_items lower items) fx))"

text \<open>Lines 252 to 265: the scan of the second block, over what is left of \<open>cl.listOfPrs\<close>.\<close>

fun range_leftover ::
  "string \<Rightarrow> PullRequests \<Rightarrow> string list \<times> bool \<times> PullRequests \<times> effects
    \<Rightarrow> string list \<times> bool \<times> PullRequests \<times> effects" where
  "range_leftover releaseLabel [] s = s"
| "range_leftover releaseLabel ((prID, pr) # es) (items, printedHeader, m, fx) =
     (if ReleaseLabel pr \<noteq> releaseLabel
      then range_leftover releaseLabel es (items, printedHeader, m, fx)
      else
        let fx = (if \<not> printedHeader then Fprintf_stderr (header releaseLabel) [] fx else fx)
        in range_leftover releaseLabel es
             (items @ [format_pr prID pr], True, delete_key prID m, fx))"

text \<open>One pass of the loop of line 249.\<close>

definition print_leftover ::
  "(string \<Rightarrow> string) \<Rightarrow> string \<Rightarrow> ChangeLog \<times> effects \<Rightarrow> ChangeLog \<times> effects" where
  "print_leftover lower releaseLabel s =
     (let (c, fx) = s;
          (items, printedHeader, prs, fx) =
            range_leftover releaseLabel (listOfPrs c) ([], False, listOfPrs c, fx)
      in (c\<lparr>listOfPrs := prs\<rparr>,
          fold (\<lambda>changeLogItem. Fprintf_stderr changeLogItem []) (sort_items lower items) fx))"

text \<open>The format string of lines 246 to 247; its operand is \<open>cl.LastStable\<close>.\<close>

definition notice :: string where
  "notice =
     [CHR ''\<newline>'', CHR 0x1B] @ ''[1mNOTICE'' @ [CHR 0x1B]
       @ ''[0m: The following PRs were not included in the ''
       @ ''changelog as they were backported to branch %s and assumed to be already ''
       @ ''released.\<newline>''"

text \<open>Lines 183 to 241: the header and the six sections on standard output.\<close>

definition print_sections :: "(string \<Rightarrow> string) \<Rightarrow> ChangeLog \<Rightarrow> ChangeLog \<times> effects" where
  "print_sections lower c =
     fold (print_category lower) releaseNotesOrder
       (c, Println ''------------------'' (Println ''Summary of Changes'' no_effects))"

text \<open>
  The method has a pointer receiver and updates the maps of the change log; the
  result is the change log as the method leaves it, and what it wrote. \<open>lower\<close> is
  \<open>strings.ToLower\<close>.
\<close>

definition PrintReleaseNotes :: "(string \<Rightarrow> string) \<Rightarrow> ChangeLog \<Rightarrow> ChangeLog \<times> effects" where
  "PrintReleaseNotes lower c0 =
     (let (c, fx) = print_sections lower c0
      in if length (listOfPrs c) = 0 then (c, fx)
         else fold (print_leftover lower) releaseNotesOrder
                (c, Fprintf_stderr notice [LastStable (config c)] fx))"

section \<open>Comparison services for a linear history\<close>

text \<open>
  A comparison service for the linear history \<open>history\<close> (oldest commit first) that
  returns at most \<open>pageSize\<close> commits: asked for the commits up to \<open>head\<close>, it answers
  with the last \<open>pageSize\<close> commits of the history up to and including \<open>head\<close>, oldest
  first. The base commit itself is not part of \<open>history\<close>.
\<close>

definition compare_window :: "string list \<Rightarrow> nat \<Rightarrow> string \<Rightarrow> string + string list" where
  "compare_window history pageSize head =
     (if head \<in> set history then
        let upto = takeWhile (\<lambda>sha. sha \<noteq> head) history @ [head]
        in Inr (drop (length upto - pageSize) upto)
      else Inl ''unknown revision'')"

text \<open>
  \<open>covers history pages\<close>: the pages, in the order in which they are served (the page
  that ends at the head first), together cover \<open>history\<close>, and consecutive pages overlap
  by exactly one boundary commit: every page but the first ends with the commit that the
  page before it starts with.
\<close>

fun covers :: "string list \<Rightarrow> string list list \<Rightarrow> bool" where
  "covers history [] = False"
| "covers history [page] = (page \<noteq> [] \<and> page = history)"
| "covers history (page # older # pages) =
     (2 \<le> length page \<and> length page \<le> length history \<and>
      drop (length history - length page) history = page \<and>
      covers (take (Suc (length history - length page)) history) (older # pages))"

section \<open>What the scans select\<close>

text \<open>
  The entries of a mapping that carry a given release label, the entries of the flat
  mapping that a scan for a label emits, and the entries of the nested mapping that carry
  the label, each with the number of its backport PR, in the order of iteration.
\<close>

definition labelled :: "string \<Rightarrow> PullRequests \<Rightarrow> PullRequests" where
  "labelled releaseLabel m = filter (\<lambda>e. ReleaseLabel (snd e) = releaseLabel) m"

definition emitted :: "string \<Rightarrow> string \<Rightarrow> PullRequests \<Rightarrow> PullRequests" where
  "emitted releaseLabel lastStable m =
     filter (\<lambda>e. ReleaseLabel (snd e) = releaseLabel \<and> \<not> assumed_released lastStable (snd e)) m"

definition backport_matches :: "string \<Rightarrow> BackportPRs \<Rightarrow> (int \<times> int \<times> PullRequest) list" where
  "backport_matches releaseLabel bs =
     concat (map (\<lambda>(backportPR, m). map (\<lambda>(prID, pr). (backportPR, prID, pr))
                    (labelled releaseLabel m)) bs)"

text \<open>The value of \<open>changelogItems\<close> that these selections give for a release label.\<close>

definition category_items :: "string \<Rightarrow> ChangeLog \<Rightarrow> string list" where
  "category_items releaseLabel c =
     map (\<lambda>(backportPR, prID, pr). format_backport backportPR prID pr)
       (backport_matches releaseLabel (prsWithUpstream c))
     @ map (\<lambda>(prID, pr). format_pr prID pr)
         (emitted releaseLabel (LastStable (config c)) (listOfPrs c))"

text \<open>
  The change log after the scans for a release label: the entries with that label are
  gone from every inner mapping, and the emitted entries are gone from the flat mapping.
\<close>

definition scanned :: "string \<Rightarrow> ChangeLog \<Rightarrow> ChangeLog" where
  "scanned releaseLabel c =
     c\<lparr>prsWithUpstream :=
         map (\<lambda>(backportPR, m). (backportPR, filter (\<lambda>e. ReleaseLabel (snd e) \<noteq> releaseLabel) m))
           (prsWithUpstream c),
       listOfPrs :=
         filter (\<lambda>e. \<not> (ReleaseLabel (snd e) = releaseLabel \<and>
                         \<not> assumed_released (LastStable (config c)) (snd e)))
           (listOfPrs c)\<rparr>"

text \<open>The lines of one section on standard output: blank line, header, sorted items.\<close>

definition section_lines :: "(string \<Rightarrow> string) \<Rightarrow> string \<Rightarrow> ChangeLog \<Rightarrow> string list" where
  "section_lines lower releaseLabel c =
     (if category_items releaseLabel c = [] then [] else [[], header releaseLabel])
     @ sort_items lower (category_items releaseLabel c)"

text \<open>
  The calls of \<open>fmt.Fprintf(os.Stderr, ...)\<close> of one block of the diagnostic notice for
  the given entries: the header, then the sorted items, each as a format string without
  operands.
\<close>

definition leftover_lines ::
  "(string \<Rightarrow> string) \<Rightarrow> string \<Rightarrow> PullRequests \<Rightarrow> (string \<times> string list) list" where
  "leftover_lines lower releaseLabel es =
     (if es = [] then [] else [(header releaseLabel, [])])
     @ map (\<lambda>changeLogItem. (changeLogItem, []))
         (sort_items lower (map (\<lambda>(prID, pr). format_pr prID pr) es))"

text \<open>The keys of every mapping of a change log are unique, as in a Go map.\<close>

definition unique_keys :: "ChangeLog \<Rightarrow> bool" where
  "unique_keys c =
     (distinct (map fst (listOfPrs c)) \<and> distinct (map fst (prsWithUpstream c)) \<and>
      list_all (\<lambda>b. distinct (map fst (snd b))) (prsWithUpstream c))"

section \<open>Concrete inputs\<close>

text \<open>A configuration that passes validation, and a caller's memory holding it in cell 0.\<close>

definition example_config :: Config where
  "example_config =
     \<lparr>Base = ''v1'', Head = ''v2'', LastStable = ''1.0'', StateFile = ''state.json'',
      RepoName = ''cilium/cilium'', Owner = [], Repo = [], CurrVer = [], NextVer = [],
      ForceMovePending = False\<rparr>"

definition example_memory :: memory where
  "example_memory = \<lparr>cells = (\<lambda>a. example_config), free = 1\<rparr>"

text \<open>
  An environment without state file whose comparison service is the function \<open>api\<close> of
  the call number and the requested head; classification and persistence succeed.
\<close>

definition mock_env :: "(nat \<Rightarrow> string \<Rightarrow> string + string list) \<Rightarrow> env" where
  "mock_env api =
     \<lparr>StatFile = (\<lambda>path. False),
      LoadState = (\<lambda>path. Inl ''no state file''),
      CompareCommits = (\<lambda>n owner repo base head. api n head),
      GeneratePatchRelease =
        (\<lambda>owner repo backportPRs listOfPRs hashes. ((backportPRs, listOfPRs, []), None)),
      StoreState = (\<lambda>path backportPRs listOfPRs hashes. None)\<rparr>"

text \<open>
  A comparison service that answers the \<open>n\<close>-th call with the \<open>n\<close>-th page of a fixed
  list, whatever is asked, and fails when the list is used up.
\<close>

definition scripted :: "string list list \<Rightarrow> nat \<Rightarrow> string \<Rightarrow> string + string list" where
  "scripted pages n head = (if n < length pages then Inr (pages ! n) else Inl ''no more pages'')"

text \<open>A comparison service that answers once and then fails.\<close>

definition rate_limited :: "nat \<Rightarrow> string \<Rightarrow> string + string list" where
  "rate_limited n head = (if n = 0 then Inr [''a'', ''b'', ''c''] else Inl ''rate limit'')"

definition example_pr :: PullRequest where
  "example_pr =
     \<lparr>ReleaseNote = ''Add Y'', ReleaseLabel = ''release-note/minor'', AuthorName = ''bob'',
      BackportBranches = []\<rparr>"

text \<open>
  An environment that resumes from a state file with three commits left, and in which
  both classification and persistence fail.
\<close>

definition failing_env :: env where
  "failing_env =
     \<lparr>StatFile = (\<lambda>path. True),
      LoadState = (\<lambda>path. Inr ([], [], [''c'', ''b'', ''a''])),
      CompareCommits = (\<lambda>n owner repo base head. Inl ''not called''),
      GeneratePatchRelease =
        (\<lambda>owner repo backportPRs listOfPRs hashes.
           (([(20, [(5, example_pr)])], listOfPRs, drop 1 hashes), Some ''timeout'')),
      StoreState = (\<lambda>path backportPRs listOfPRs hashes. Some ''disk full'')\<rparr>"

text \<open>The state of a walk that asked for head \<open>b\<close> twice in a row.\<close>

definition stalled_state :: walk_state where
  "stalled_state =
     \<lparr>wcfg = example_config\<lparr>Head := ''b''\<rparr>, shas = [''c'', ''b''], cont = True,
      prevHead = ''b''\<rparr>"

text \<open>
  A change log in which upstream PR 5 was backported by the two backport PRs 20 and 21,
  with three flat PRs: one to emit, one already released on a branch of the last stable
  version \<open>1.0\<close>, and one whose label is none of the six release labels.
\<close>

definition fix_pr :: PullRequest where
  "fix_pr =
     \<lparr>ReleaseNote = ''Fix X'', ReleaseLabel = ''release-note/bug'', AuthorName = ''alice'',
      BackportBranches = []\<rparr>"

definition released_pr :: PullRequest where
  "released_pr =
     \<lparr>ReleaseNote = ''Fix Z'', ReleaseLabel = ''release-note/bug'', AuthorName = ''carol'',
      BackportBranches = [''v1.0'']\<rparr>"

definition unlabelled_pr :: PullRequest where
  "unlabelled_pr =
     \<lparr>ReleaseNote = ''Tidy up'', ReleaseLabel = ''kind/cleanup'', AuthorName = ''dave'',
      BackportBranches = []\<rparr>"

definition example_changelog :: ChangeLog where
  "example_changelog =
     \<lparr>config = example_config,
      prsWithUpstream = [(20, [(5, example_pr)]), (21, [(5, example_pr)])],
      listOfPrs = [(10, fix_pr), (11, released_pr), (12, unlabelled_pr)]\<rparr>"

definition unlabelled_changelog :: ChangeLog where
  "unlabelled_changelog =
     \<lparr>config = example_config, prsWithUpstream = [], listOfPrs = [(12, unlabelled_pr)]\<rparr>"

text \<open>
  A history of seven commits, and a history of five commits cut into two pages that
  overlap in the commit \<open>c\<close>.
\<close>

definition example_history :: "string list" where
  "example_history = [''a'', ''b'', ''c'', ''d'', ''e'', ''f'', ''g'']"

definition short_history :: "string list" where
  "short_history = [''a'', ''b'', ''c'', ''d'', ''e'']"

definition overlapping_pages :: "string list list" where
  "overlapping_pages = [[''c'', ''d'', ''e''], [''a'', ''b'', ''c'']]"


text \<open>The page of the example in the comment of lines 139 to 143.\<close>

definition commented_page :: "string list" where
  "commented_page = [''6'', ''7'', ''8'', ''9'', ''10'']"
declare commit_walk.simps [simp del]

declare walk_after.simps [simp del]

section \<open>Validation of the configuration\<close>

lemma length_Split: "length (Split s sep) = Suc (count_list s sep)"
  by (induction s) (auto split: list.splits)

text \<open>
  Claim C6 says that \<open>Sanitize\<close> returns an error for every repository identifier that
  does not split on \<open>/\<close> into exactly two non-empty parts, and for every last-stable
  string that contains the letter \<open>v\<close>. The code counts the parts (line 69) and never
  looks at their length: \<open>owner/\<close> splits into \<open>owner\<close> and the empty string and is
  accepted.
\<close>

theorem Sanitize_accepts_empty_part:
  "Split ''owner/'' CHR ''/'' = [''owner'', ''''] \<and>
   snd (Sanitize (example_config\<lparr>RepoName := ''owner/''\<rparr>)) = None"
  by (simp add: Sanitize_def example_config_def)

text \<open>
  Claim C6 as the code has it: \<open>Sanitize\<close> returns the invalid-name error for every
  repository identifier that does not split on \<open>/\<close> into exactly two parts (that is, by
  the lemma above, that does not hold exactly one \<open>/\<close>), and it returns an error for
  every last-stable string that contains \<open>v\<close>.
\<close>

theorem Sanitize_rejects:
  "(length (Split (RepoName c) CHR ''/'') \<noteq> 2 \<longrightarrow>
      snd (Sanitize c) = Some (InvalidRepoName (RepoName c))) \<and>
   (Contains (LastStable c) ''v'' \<longrightarrow> snd (Sanitize c) \<noteq> None)"
  by (simp add: Sanitize_def Let_def)

text \<open>The two inputs named by the claim: \<open>onlyname\<close> and \<open>0.9v\<close>.\<close>

theorem Sanitize_rejects_witness:
  "snd (Sanitize (example_config\<lparr>RepoName := ''onlyname''\<rparr>)) = Some (InvalidRepoName ''onlyname'') \<and>
   snd (Sanitize (example_config\<lparr>LastStable := ''0.9v''\<rparr>)) \<noteq> None"
  using Sanitize_rejects [of "example_config\<lparr>RepoName := ''onlyname''\<rparr>"]
    Sanitize_rejects [of "example_config\<lparr>LastStable := ''0.9v''\<rparr>"]
  by (simp add: example_config_def)

text \<open>
  Claim C9: a call of \<open>Sanitize\<close> leaves the caller's configuration as it was, whatever
  the call returns. The assignments to \<open>cfg.Owner\<close> and \<open>cfg.Repo\<close> reach the receiver's
  cell only, so after a successful call the caller's value, \<open>Owner\<close> and \<open>Repo\<close>
  included, is unchanged, while the receiver's copy holds the two parts of the
  repository identifier.
\<close>

theorem Sanitize_leaves_caller_config:
  assumes "a < free m" and "call_Sanitize a m = (m', err)"
  shows "cells m' a = cells m a \<and>
         (err = None \<longrightarrow>
            Owner (cells m' (free m)) = Split (RepoName (cells m a)) CHR ''/'' ! 0 \<and>
            Repo (cells m' (free m)) = Split (RepoName (cells m a)) CHR ''/'' ! 1)"
  using assms
  by (auto simp: call_Sanitize_def Sanitize_def Let_def split: if_splits prod.splits)

theorem Sanitize_leaves_caller_config_witness:
  "snd (call_Sanitize 0 example_memory) = None \<and>
   cells (fst (call_Sanitize 0 example_memory)) 0 = example_config \<and>
   Owner (cells (fst (call_Sanitize 0 example_memory)) 0) = [] \<and>
   Owner (cells (fst (call_Sanitize 0 example_memory)) 1) = ''cilium''"
proof -
  have f: "(0::nat) < free example_memory" by (simp add: example_memory_def)
  have s: "snd (call_Sanitize 0 example_memory) = None"
    by (simp add: call_Sanitize_def Sanitize_def example_memory_def example_config_def)
  then obtain m' where r: "call_Sanitize 0 example_memory = (m', None)"
    by (cases "call_Sanitize 0 example_memory") simp
  have "free example_memory = 1" "cells example_memory 0 = example_config"
    by (simp_all add: example_memory_def)
  with Sanitize_leaves_caller_config [OF f r] r show ?thesis
    by (simp add: example_config_def)
qed

section \<open>The commit walk\<close>

subsection \<open>One comparison at a time\<close>

lemma walk_iteration_empty: "walk_iteration st [] = Inl IndexOutOfRange"
  by (simp add: walk_iteration_def)

lemma walk_iteration_single_first:
  "sha \<noteq> [] \<Longrightarrow> walk_iteration \<lparr>wcfg = c, shas = [], cont = False, prevHead = []\<rparr> [sha] = Inl IndexOutOfRange"
  by (simp add: walk_iteration_def append_shas.simps)


lemma commit_walk_failed:
  "CompareCommits E (length (compared fx)) (Owner (wcfg st)) (Repo (wcfg st))
      (Base (wcfg st)) (Head (wcfg st)) = Inl err \<Longrightarrow>
   commit_walk (Suc fuel) E st fx =
     Some (Inl (CompareCommitsFailed (Base (wcfg st)) (Head (wcfg st)) err), log_compare (wcfg st) fx)"
  by (simp add: commit_walk.simps Let_def)

lemma commit_walk_panicked:
  "CompareCommits E (length (compared fx)) (Owner (wcfg st)) (Repo (wcfg st))
      (Base (wcfg st)) (Head (wcfg st)) = Inr commits \<Longrightarrow>
   walk_iteration st commits = Inl e \<Longrightarrow>
   commit_walk (Suc fuel) E st fx = Some (Inl e, log_compare (wcfg st) fx)"
  by (simp add: commit_walk.simps)

lemma commit_walk_break:
  "CompareCommits E (length (compared fx)) (Owner (wcfg st)) (Repo (wcfg st))
      (Base (wcfg st)) (Head (wcfg st)) = Inr commits \<Longrightarrow>
   walk_iteration st commits = Inr (True, st') \<Longrightarrow>
   commit_walk (Suc fuel) E st fx = Some (Inr st', log_compare (wcfg st) fx)"
  by (simp add: commit_walk.simps)

lemma commit_walk_continue:
  "CompareCommits E (length (compared fx)) (Owner (wcfg st)) (Repo (wcfg st))
      (Base (wcfg st)) (Head (wcfg st)) = Inr commits \<Longrightarrow>
   walk_iteration st commits = Inr (False, st') \<Longrightarrow>
   commit_walk (Suc fuel) E st fx = commit_walk fuel E st' (log_compare (wcfg st) fx)"
  by (simp add: commit_walk.simps)

lemma log_compare_simps:
  "stored (log_compare c fx) = stored fx"
  "stdout (log_compare c fx) = stdout fx"
  "stderr (log_compare c fx) = stderr fx"
  "compared (log_compare c fx) = compared fx @ [(Base c, Head c)]"
  "printed (log_compare c fx) = printed fx @ [''Comparing '' @ Base c @ ''...'' @ Head c @ ''\<newline>'']"
  by (simp_all add: log_compare_def printer_def)

lemma append_shas_error: "append_shas commits i acc = Inl e \<Longrightarrow> e = IndexOutOfRange"
proof (induction commits i acc rule: append_shas.induct)
  case (1 commits i acc)
  then show ?case
    by (subst (asm) (2) append_shas.simps) (auto simp: Let_def split: if_splits)
qed

lemma walk_iteration_error: "walk_iteration st commits = Inl e \<Longrightarrow> e = IndexOutOfRange"
  by (auto simp: walk_iteration_def Let_def split: if_splits sum.splits dest: append_shas_error)

lemma walk_iteration_wcfg:
  "walk_iteration st commits = Inr (b, st') \<Longrightarrow>
     Base (wcfg st') = Base (wcfg st) \<and> Owner (wcfg st') = Owner (wcfg st) \<and>
     Repo (wcfg st') = Repo (wcfg st) \<and> StateFile (wcfg st') = StateFile (wcfg st)"
  by (auto simp: walk_iteration_def Let_def split: if_splits sum.splits)

lemma commit_walk_cases:
  assumes "commit_walk (Suc fuel) E st fx = Some (r, fx')"
  obtains
    (failed) err where
      "CompareCommits E (length (compared fx)) (Owner (wcfg st)) (Repo (wcfg st))
         (Base (wcfg st)) (Head (wcfg st)) = Inl err"
      "r = Inl (CompareCommitsFailed (Base (wcfg st)) (Head (wcfg st)) err)"
      "fx' = log_compare (wcfg st) fx"
  | (panicked) commits where
      "CompareCommits E (length (compared fx)) (Owner (wcfg st)) (Repo (wcfg st))
         (Base (wcfg st)) (Head (wcfg st)) = Inr commits"
      "walk_iteration st commits = Inl IndexOutOfRange"
      "r = Inl IndexOutOfRange" "fx' = log_compare (wcfg st) fx"
  | (break) commits st' where
      "CompareCommits E (length (compared fx)) (Owner (wcfg st)) (Repo (wcfg st))
         (Base (wcfg st)) (Head (wcfg st)) = Inr commits"
      "walk_iteration st commits = Inr (True, st')"
      "r = Inr st'" "fx' = log_compare (wcfg st) fx"
  | (continue) commits st' where
      "CompareCommits E (length (compared fx)) (Owner (wcfg st)) (Repo (wcfg st))
         (Base (wcfg st)) (Head (wcfg st)) = Inr commits"
      "walk_iteration st commits = Inr (False, st')"
      "commit_walk fuel E st' (log_compare (wcfg st) fx) = Some (r, fx')"
proof (cases "CompareCommits E (length (compared fx)) (Owner (wcfg st)) (Repo (wcfg st))
         (Base (wcfg st)) (Head (wcfg st))")
  case (Inl err)
  with assms commit_walk_failed [OF Inl, of fuel] failed show ?thesis by simp
next
  case (Inr commits)
  show ?thesis
  proof (cases "walk_iteration st commits")
    case (Inl e)
    then have "e = IndexOutOfRange" by (rule walk_iteration_error)
    with assms commit_walk_panicked [OF Inr Inl, of fuel] Inl Inr panicked show ?thesis by simp
  next
    case r: (Inr p)
    obtain b st' where p: "p = (b, st')" by (cases p)
    show ?thesis
    proof (cases b)
      case True
      with assms commit_walk_break [OF Inr, of st' fuel] r p Inr break show ?thesis by simp
    next
      case False
      with assms commit_walk_continue [OF Inr, of st' fuel] r p Inr continue show ?thesis by simp
    qed
  qed
qed

lemma commit_walk_effects:
  "commit_walk fuel E st fx = Some (r, fx') \<Longrightarrow>
     stored fx' = stored fx \<and> stdout fx' = stdout fx \<and> stderr fx' = stderr fx \<and>
     (\<exists>reqs. compared fx' = compared fx @ (Base (wcfg st), Head (wcfg st)) # reqs)"
proof (induction fuel arbitrary: st fx)
  case 0
  then show ?case by (simp add: commit_walk.simps)
next
  case (Suc fuel)
  from Suc.prems show ?case
  proof (cases rule: commit_walk_cases)
    case (continue commits st')
    from Suc.IH [OF continue(3)] show ?thesis by (auto simp: log_compare_simps)
  qed (simp_all add: log_compare_simps)
qed

lemma commit_walk_failed_call:
  "commit_walk fuel E st fx = Some (r, fx') \<Longrightarrow> length (compared fx) \<le> n \<Longrightarrow>
   n < length (compared fx') \<Longrightarrow>
   CompareCommits E n (Owner (wcfg st)) (Repo (wcfg st))
      (fst (compared fx' ! n)) (snd (compared fx' ! n)) = Inl err \<Longrightarrow>
   Suc n = length (compared fx') \<and>
   r = Inl (CompareCommitsFailed (fst (compared fx' ! n)) (snd (compared fx' ! n)) err)"
proof (induction fuel arbitrary: st fx)
  case 0
  then show ?case by (simp add: commit_walk.simps)
next
  case (Suc fuel)
  from commit_walk_effects [OF Suc.prems(1)] obtain reqs where
    reqs: "compared fx' = compared fx @ (Base (wcfg st), Head (wcfg st)) # reqs" by blast
  then have here: "compared fx' ! length (compared fx) = (Base (wcfg st), Head (wcfg st))"
    by (simp add: nth_append)
  from Suc.prems(1) show ?case
  proof (cases rule: commit_walk_cases)
    case (failed err')
    with Suc.prems(2,3) have "n = length (compared fx)" by (simp add: log_compare_simps)
    with failed Suc.prems(4) here show ?thesis by (simp add: log_compare_simps)
  next
    case (panicked commits)
    with Suc.prems(2,3) have "n = length (compared fx)" by (simp add: log_compare_simps)
    with panicked Suc.prems(4) here show ?thesis by simp
  next
    case (break commits st')
    with Suc.prems(2,3) have "n = length (compared fx)" by (simp add: log_compare_simps)
    with break Suc.prems(4) here show ?thesis by simp
  next
    case (continue commits st')
    have "n \<noteq> length (compared fx)"
      using continue(1) Suc.prems(4) here by auto
    with Suc.prems(2) have le: "length (compared (log_compare (wcfg st) fx)) \<le> n"
      by (simp add: log_compare_simps)
    from walk_iteration_wcfg [OF continue(2)] Suc.prems(4)
    have "CompareCommits E n (Owner (wcfg st')) (Repo (wcfg st'))
      (fst (compared fx' ! n)) (snd (compared fx' ! n)) = Inl err" by simp
    from Suc.IH [OF continue(3) le Suc.prems(3) this] show ?thesis .
  qed
qed

subsection \<open>Classification and persistence\<close>

lemma classify_and_store_compared:
  "compared (snd (classify_and_store E c backportPRs listOfPRs hashes fx)) = compared fx"
  by (simp add: classify_and_store_def Let_def printer_def Println_def
      split: prod.splits option.splits)

lemma classify_and_store_failed:
  assumes "GeneratePatchRelease E (Owner c) (Repo c) backportPRs listOfPRs hashes =
             ((upstream, prs, leftShas), Some e)"
  shows "fst (classify_and_store E c backportPRs listOfPRs hashes fx) = Inl (RetrievePRsFailed e)"
    and "stored (snd (classify_and_store E c backportPRs listOfPRs hashes fx)) =
           stored fx @ [(StateFile c, upstream, prs, leftShas)]"
    and "StoreState E (StateFile c) upstream prs leftShas = Some e2 \<Longrightarrow>
           last (printed (snd (classify_and_store E c backportPRs listOfPRs hashes fx))) =
             ''Unable to store state: '' @ e2 @ '' + \<newline>''"
  using assms
  by (simp_all add: classify_and_store_def Let_def printer_def Println_def split: option.splits)

lemma collect_shas_stored:
  "collect_shas fuel E c = Some (r, fx) \<Longrightarrow> stored fx = []"
  by (auto simp: collect_shas_def Let_def printer_def no_effects_def
      split: if_splits sum.splits option.splits prod.splits dest!: commit_walk_effects)

lemma GenerateReleaseNotes_cases:
  assumes "GenerateReleaseNotes fuel E c = Some (r, fx)"
  obtains
    (early) e where "collect_shas fuel E c = Some (Inl e, fx)" "r = Inl e"
  | (classified) c' backportPRs listOfPRs hashes fx0 where
      "collect_shas fuel E c = Some (Inr (c', backportPRs, listOfPRs, hashes), fx0)"
      "classify_and_store E c' backportPRs listOfPRs hashes fx0 = (r, fx)"
  using assms
  by (auto simp: GenerateReleaseNotes_def split: option.splits sum.splits prod.splits)

lemma collect_shas_cases:
  assumes "collect_shas fuel E c = Some (r, fx)"
  obtains
    (unreadable) err where "StatFile E (StateFile c)" "LoadState E (StateFile c) = Inl err"
      "r = Inl (ReadPersistenceFailed err)" "compared fx = []"
  | (resumed) backportPRs listOfPRs hashes where "StatFile E (StateFile c)"
      "LoadState E (StateFile c) = Inr (backportPRs, listOfPRs, hashes)"
      "r = Inr (c, backportPRs, listOfPRs, hashes)" "compared fx = []"
  | (aborted) e where "\<not> StatFile E (StateFile c)"
      "commit_walk fuel E \<lparr>wcfg = c, shas = [], cont = False, prevHead = []\<rparr> no_effects
         = Some (Inl e, fx)"
      "r = Inl e"
  | (walked) st where "\<not> StatFile E (StateFile c)"
      "commit_walk fuel E \<lparr>wcfg = c, shas = [], cont = False, prevHead = []\<rparr> no_effects
         = Some (Inr st, fx)"
      "r = Inr (wcfg st, [], [], shas st)"
  using assms
  by (auto simp: collect_shas_def Let_def printer_def no_effects_def
      split: if_splits option.splits sum.splits prod.splits)

lemma commit_walk_returns_no_compare_failure:
  assumes "commit_walk fuel E st fx = Some (Inr st', fx')"
    and "length (compared fx) \<le> n" and "n < length (compared fx')"
  shows "CompareCommits E n (Owner (wcfg st)) (Repo (wcfg st))
           (fst (compared fx' ! n)) (snd (compared fx' ! n)) \<noteq> Inl err"
  using commit_walk_failed_call [OF assms] by auto

subsection \<open>Short responses\<close>

text \<open>
  Claim C10: the walk is not total on short responses. When the first comparison
  returns no commit, line 122 reads \<open>cc.Commits[-1]\<close>; when it returns exactly one commit
  (with a SHA), nothing is appended and line 150 reads \<open>shas[-1]\<close>. In both cases
  \<open>GenerateReleaseNotes\<close> ends in the index panic, not in a returned error, and nothing has
  been stored.
\<close>

theorem walk_panics_on_short_response:
  assumes "\<not> StatFile E (StateFile c)"
    and "CompareCommits E 0 (Owner c) (Repo c) (Base c) (Head c) = Inr commits"
    and "commits = [] \<or> (\<exists>sha. sha \<noteq> [] \<and> commits = [sha])"
  shows "\<exists>fx. GenerateReleaseNotes (Suc fuel) E c = Some (Inl IndexOutOfRange, fx) \<and> stored fx = []"
proof -
  let ?st = "\<lparr>wcfg = c, shas = [], cont = False, prevHead = []\<rparr>"
  have it: "walk_iteration ?st commits = Inl IndexOutOfRange"
    using assms(3) by (auto simp: walk_iteration_empty walk_iteration_single_first)
  have "CompareCommits E (length (compared no_effects)) (Owner (wcfg ?st)) (Repo (wcfg ?st))
      (Base (wcfg ?st)) (Head (wcfg ?st)) = Inr commits"
    using assms(2) by (simp add: no_effects_def)
  from commit_walk_panicked [OF this it]
  have "commit_walk (Suc fuel) E ?st no_effects = Some (Inl IndexOutOfRange, log_compare c no_effects)"
    by simp
  with assms(1) have "GenerateReleaseNotes (Suc fuel) E c = Some (Inl IndexOutOfRange, log_compare c no_effects)"
    by (simp add: GenerateReleaseNotes_def collect_shas_def)
  then show ?thesis by (simp add: log_compare_simps no_effects_def)
qed

theorem walk_panics_on_short_response_witness:
  "(\<exists>fx. GenerateReleaseNotes 1 (mock_env (scripted [[]])) example_config = Some (Inl IndexOutOfRange, fx)) \<and>
   (\<exists>fx. GenerateReleaseNotes 1 (mock_env (scripted [[''abc'']])) example_config = Some (Inl IndexOutOfRange, fx))"
  using walk_panics_on_short_response [of "mock_env (scripted [[]])" example_config "[]" 0]
    walk_panics_on_short_response [of "mock_env (scripted [[''abc'']])" example_config "[''abc'']" 0]
  by (auto simp: mock_env_def scripted_def)

subsection \<open>Stall detection\<close>

text \<open>
  Claim C8: the walk ends exactly when the last identifier of the newest response equals
  the last identifier of the previous response, and it then appends only the first
  identifier of that response. For a walk in any state that receives a non-empty
  response: if the last commit of the response equals \<open>prevHead\<close>, the loop ends at this
  comparison and the identifier list grows by the first commit of the response (by
  nothing when that commit carries no SHA); otherwise the loop does not end here with a
  result: it panics or goes on, and then \<open>prevHead\<close> is the last commit of this response.
  So from the second comparison on \<open>prevHead\<close> is the last identifier of the previous
  response; before the first comparison it is empty.
\<close>

theorem walk_stops_on_repeated_last:
  assumes "CompareCommits E (length (compared fx)) (Owner (wcfg st)) (Repo (wcfg st))
             (Base (wcfg st)) (Head (wcfg st)) = Inr commits"
    and "commits \<noteq> []"
  shows "(prevHead st = last commits \<longrightarrow>
            commit_walk (Suc fuel) E st fx =
              Some (Inr (if hd commits \<noteq> [] then st\<lparr>shas := shas st @ [hd commits]\<rparr> else st),
                    log_compare (wcfg st) fx)) \<and>
         (prevHead st \<noteq> last commits \<longrightarrow>
            commit_walk (Suc fuel) E st fx = Some (Inl IndexOutOfRange, log_compare (wcfg st) fx) \<or>
            (\<exists>st'. prevHead st' = last commits \<and>
               commit_walk (Suc fuel) E st fx = commit_walk fuel E st' (log_compare (wcfg st) fx)))"
proof (cases "prevHead st = last commits")
  case True
  with assms(2) have "walk_iteration st commits =
      Inr (True, if hd commits \<noteq> [] then st\<lparr>shas := shas st @ [hd commits]\<rparr> else st)"
    by (simp add: walk_iteration_def)
  from commit_walk_break [OF assms(1) this] True show ?thesis by simp
next
  case False
  show ?thesis
  proof (cases "walk_iteration st commits")
    case (Inl e)
    then have "e = IndexOutOfRange" by (rule walk_iteration_error)
    with commit_walk_panicked [OF assms(1) Inl] False show ?thesis by simp
  next
    case (Inr p)
    with False assms(2) obtain st' where p: "p = (False, st')" and "prevHead st' = last commits"
      by (auto simp: walk_iteration_def Let_def split: sum.splits if_splits)
    with commit_walk_continue [OF assms(1)] Inr False show ?thesis by auto
  qed
qed

theorem walk_stops_on_repeated_last_witness:
  "commit_walk 1 (mock_env (\<lambda>n head. Inr [''a'', ''b''])) stalled_state no_effects =
     Some (Inr (stalled_state\<lparr>shas := [''c'', ''b'', ''a'']\<rparr>),
           log_compare (wcfg stalled_state) no_effects)"
proof -
  have "CompareCommits (mock_env (\<lambda>n head. Inr [''a'', ''b''])) (length (compared no_effects))
          (Owner (wcfg stalled_state)) (Repo (wcfg stalled_state))
          (Base (wcfg stalled_state)) (Head (wcfg stalled_state)) = Inr [''a'', ''b'']"
    by (simp add: mock_env_def)
  from walk_stops_on_repeated_last [OF this, of 0] show ?thesis
    by (simp add: stalled_state_def)
qed

subsection \<open>A failed comparison\<close>

text \<open>
  Claim C4 says that when a comparison fails the walk aborts without retrying, the error
  reaches the caller, and the identifiers found so far are still written to the state
  file. The first two parts hold; the third does not: line 120 returns before line 163
  is reached. Here the first comparison succeeds, the second fails after two identifiers
  were collected, and \<open>StoreState\<close> is never called.
\<close>

theorem failed_compare_stores_nothing:
  "map_option (\<lambda>(r, fx). (r, compared fx, stored fx))
     (GenerateReleaseNotes 2 (mock_env rate_limited) example_config) =
   Some (Inl (CompareCommitsFailed ''v1'' ''b'' ''rate limit''),
         [(''v1'', ''v2''), (''v1'', ''b'')], [])"
  by code_simp

text \<open>
  In every run that returns and in which some comparison has failed, that comparison is
  the last one made, the result is the comparison error for that request, and
  \<open>StoreState\<close> has not been called.
\<close>

lemma failed_compare_is_last_request:
  assumes "GenerateReleaseNotes fuel E c = Some (r, fx)"
    and "n < length (compared fx)"
    and "CompareCommits E n (Owner c) (Repo c) (fst (compared fx ! n)) (snd (compared fx ! n)) = Inl err"
  shows "Suc n = length (compared fx) \<and>
         r = Inl (CompareCommitsFailed (fst (compared fx ! n)) (snd (compared fx ! n)) err) \<and>
         stored fx = []"
  using assms(1)
proof (cases rule: GenerateReleaseNotes_cases)
  case (early e)
  from early(1) show ?thesis
  proof (cases rule: collect_shas_cases)
    case (aborted e')
    have "length (compared no_effects) \<le> n" by (simp add: no_effects_def)
    from commit_walk_failed_call [OF aborted(2) this assms(2)] assms(3)
      collect_shas_stored [OF early(1)] early(2) aborted(3)
    show ?thesis by simp
  qed (use assms(2) in simp_all)
next
  case (classified c' backportPRs listOfPRs hashes fx0)
  have same: "compared fx = compared fx0"
    using classify_and_store_compared [of E c' backportPRs listOfPRs hashes fx0] classified(2)
    by simp
  from classified(1) show ?thesis
  proof (cases rule: collect_shas_cases)
    case (walked st)
    have "length (compared no_effects) \<le> n" by (simp add: no_effects_def)
    from commit_walk_returns_no_compare_failure [OF walked(2) this, of err] assms(2,3) same
    show ?thesis by simp
  qed (use assms(2) same in simp_all)
qed

text \<open>The first \<open>k\<close> passes of the loop are the first \<open>k\<close> comparisons of the walk.\<close>

lemma walk_after_continue:
  "CompareCommits E (length (compared fx)) (Owner (wcfg st)) (Repo (wcfg st))
      (Base (wcfg st)) (Head (wcfg st)) = Inr commits \<Longrightarrow>
   walk_iteration st commits = Inr (False, st') \<Longrightarrow>
   walk_after (Suc k) E st fx = walk_after k E st' (log_compare (wcfg st) fx)"
  by (simp add: walk_after.simps)

lemma walk_after_cases:
  assumes "walk_after (Suc k) E st fx = Some (st'', fx'')"
  obtains commits st' where
    "CompareCommits E (length (compared fx)) (Owner (wcfg st)) (Repo (wcfg st))
       (Base (wcfg st)) (Head (wcfg st)) = Inr commits"
    "walk_iteration st commits = Inr (False, st')"
    "walk_after k E st' (log_compare (wcfg st) fx) = Some (st'', fx'')"
proof (cases "CompareCommits E (length (compared fx)) (Owner (wcfg st)) (Repo (wcfg st))
         (Base (wcfg st)) (Head (wcfg st))")
  case (Inl err)
  with assms show ?thesis by (simp add: walk_after.simps)
next
  case (Inr commits)
  show ?thesis
  proof (cases "walk_iteration st commits")
    case (Inl e)
    with assms Inr show ?thesis by (simp add: walk_after.simps)
  next
    case r: (Inr p)
    obtain b st' where p: "p = (b, st')" by (cases p)
    show ?thesis
    proof (cases b)
      case True
      with assms Inr r p show ?thesis by (simp add: walk_after.simps)
    next
      case False
      with assms walk_after_continue [OF Inr, of st' k] r p Inr that show ?thesis by simp
    qed
  qed
qed

lemma walk_after_commit_walk:
  "walk_after k E st fx = Some (st', fx') \<Longrightarrow>
   commit_walk (k + m) E st fx = commit_walk m E st' fx'"
proof (induction k arbitrary: st fx)
  case 0
  then show ?case by (simp add: walk_after.simps)
next
  case (Suc k)
  from Suc.prems obtain commits st1 where
    c: "CompareCommits E (length (compared fx)) (Owner (wcfg st)) (Repo (wcfg st))
       (Base (wcfg st)) (Head (wcfg st)) = Inr commits"
    and w: "walk_iteration st commits = Inr (False, st1)"
    and r: "walk_after k E st1 (log_compare (wcfg st) fx) = Some (st', fx')"
    by (rule walk_after_cases)
  from commit_walk_continue [OF c w, of "k + m"] Suc.IH [OF r] show ?case by simp
qed

lemma walk_after_frame:
  "walk_after k E st fx = Some (st', fx') \<Longrightarrow>
   Base (wcfg st') = Base (wcfg st) \<and> Owner (wcfg st') = Owner (wcfg st) \<and>
   Repo (wcfg st') = Repo (wcfg st) \<and> length (compared fx') = length (compared fx) + k \<and>
   stored fx' = stored fx"
proof (induction k arbitrary: st fx)
  case 0
  then show ?case by (simp add: walk_after.simps)
next
  case (Suc k)
  from Suc.prems obtain commits st1 where
    w: "walk_iteration st commits = Inr (False, st1)"
    and r: "walk_after k E st1 (log_compare (wcfg st) fx) = Some (st', fx')"
    by (rule walk_after_cases)
  from Suc.IH [OF r] walk_iteration_wcfg [OF w] show ?case
    by (simp add: log_compare_simps)
qed

text \<open>
  Claim C4 as the code has it. Let the state file be absent, let the first \<open>k\<close>
  comparisons of the walk succeed and each reach line 152, leaving the variables of the
  loop as \<open>st\<close>, and let the next comparison, the one for the head that \<open>st\<close> holds,
  fail with \<open>err\<close>. Then \<open>GenerateReleaseNotes\<close> returns (with any bound above \<open>k\<close> on
  the number of comparisons) the comparison error for that request; the failed request
  is the last of the \<open>k + 1\<close> requests made, so nothing is retried; and \<open>StoreState\<close>
  has not been called, so the identifiers in \<open>shas st\<close> are dropped.
\<close>

theorem compare_failure_aborts_without_store:
  assumes "\<not> StatFile E (StateFile c)"
    and "walk_after k E \<lparr>wcfg = c, shas = [], cont = False, prevHead = []\<rparr> no_effects
           = Some (st, fx)"
    and "CompareCommits E k (Owner c) (Repo c) (Base c) (Head (wcfg st)) = Inl err"
    and "k < fuel"
  shows "GenerateReleaseNotes fuel E c =
           Some (Inl (CompareCommitsFailed (Base c) (Head (wcfg st)) err),
                 log_compare (wcfg st) fx) \<and>
         length (compared fx) = k \<and>
         compared (log_compare (wcfg st) fx) = compared fx @ [(Base c, Head (wcfg st))] \<and>
         stored (log_compare (wcfg st) fx) = []"
proof -
  let ?st0 = "\<lparr>wcfg = c, shas = [], cont = False, prevHead = []\<rparr>"
  from walk_after_frame [OF assms(2)]
  have base: "Base (wcfg st) = Base c" and owner: "Owner (wcfg st) = Owner c"
    and repo: "Repo (wcfg st) = Repo c" and len: "length (compared fx) = k"
    and unstored: "stored fx = []"
    by (simp_all add: no_effects_def)
  from assms(4) obtain m where fuel: "fuel = k + Suc m"
    by (auto simp: less_iff_Suc_add)
  from assms(3) have "CompareCommits E (length (compared fx)) (Owner (wcfg st)) (Repo (wcfg st))
      (Base (wcfg st)) (Head (wcfg st)) = Inl err"
    by (simp only: base owner repo len)
  from commit_walk_failed [OF this, of m]
  have "commit_walk fuel E ?st0 no_effects =
      Some (Inl (CompareCommitsFailed (Base c) (Head (wcfg st)) err), log_compare (wcfg st) fx)"
    unfolding fuel walk_after_commit_walk [OF assms(2), of "Suc m"] by (simp only: base)
  with assms(1) have "GenerateReleaseNotes fuel E c =
      Some (Inl (CompareCommitsFailed (Base c) (Head (wcfg st)) err), log_compare (wcfg st) fx)"
    by (simp add: GenerateReleaseNotes_def collect_shas_def)
  with len unstored base show ?thesis by (simp add: log_compare_simps)
qed

text \<open>
  The run of the example: one comparison succeeds and leaves two identifiers, the
  second fails; with a bound of five comparisons the result is that error, after two
  requests and no call of \<open>StoreState\<close>.
\<close>

theorem compare_failure_aborts_without_store_witness:
  "map_option (\<lambda>(st, fx). (Head (wcfg st), shas st, compared fx))
     (walk_after 1 (mock_env rate_limited)
        \<lparr>wcfg = example_config, shas = [], cont = False, prevHead = []\<rparr> no_effects) =
     Some (''b'', [''c'', ''b''], [(''v1'', ''v2'')]) \<and>
   map_option (\<lambda>(r, fx). (r, compared fx, stored fx))
     (GenerateReleaseNotes 5 (mock_env rate_limited) example_config) =
     Some (Inl (CompareCommitsFailed ''v1'' ''b'' ''rate limit''),
           [(''v1'', ''v2''), (''v1'', ''b'')], [])"
proof -
  let ?st0 = "\<lparr>wcfg = example_config, shas = [], cont = False, prevHead = []\<rparr>"
  have first: "map_option (\<lambda>(st, fx). (Head (wcfg st), shas st, compared fx))
     (walk_after 1 (mock_env rate_limited) ?st0 no_effects) =
     Some (''b'', [''c'', ''b''], [(''v1'', ''v2'')])"
    by code_simp
  then obtain st fx where
    w: "walk_after 1 (mock_env rate_limited) ?st0 no_effects = Some (st, fx)"
    and h: "Head (wcfg st) = ''b''" and c: "compared fx = [(''v1'', ''v2'')]"
    by (auto split: option.splits)
  have absent: "\<not> StatFile (mock_env rate_limited) (StateFile example_config)"
    by (simp add: mock_env_def)
  have fails: "CompareCommits (mock_env rate_limited) 1 (Owner example_config)
      (Repo example_config) (Base example_config) (Head (wcfg st)) = Inl ''rate limit''"
    by (simp add: mock_env_def rate_limited_def)
  have base: "Base example_config = ''v1''" by (simp add: example_config_def)
  from compare_failure_aborts_without_store [OF absent w fails, of 5]
  have "map_option (\<lambda>(r, fx). (r, compared fx, stored fx))
     (GenerateReleaseNotes 5 (mock_env rate_limited) example_config) =
     Some (Inl (CompareCommitsFailed ''v1'' ''b'' ''rate limit''),
           [(''v1'', ''v2''), (''v1'', ''b'')], [])"
    by (simp add: h c base)
  with first show ?thesis by (rule conjI)
qed

subsection \<open>A failed classification\<close>

text \<open>
  Claim C5: when \<open>GeneratePatchRelease\<close> fails, \<open>GenerateReleaseNotes\<close> calls
  \<open>StoreState\<close> once, with the mappings and the remaining identifiers that
  \<open>GeneratePatchRelease\<close> returned, and then returns the classification error; when
  \<open>StoreState\<close> fails as well, its error is handed to \<open>printer\<close> (the last message) and the
  classification error is still the one returned.
\<close>

theorem classification_error_after_store:
  assumes "collect_shas fuel E c = Some (Inr (c', backportPRs, listOfPRs, hashes), fx0)"
    and "GeneratePatchRelease E (Owner c') (Repo c') backportPRs listOfPRs hashes =
           ((upstream, prs, leftShas), Some e)"
  shows "\<exists>fx. GenerateReleaseNotes fuel E c = Some (Inl (RetrievePRsFailed e), fx) \<and>
           stored fx = [(StateFile c', upstream, prs, leftShas)] \<and>
           (\<forall>e2. StoreState E (StateFile c') upstream prs leftShas = Some e2 \<longrightarrow>
              last (printed fx) = ''Unable to store state: '' @ e2 @ '' + \<newline>'')"
proof -
  let ?res = "classify_and_store E c' backportPRs listOfPRs hashes fx0"
  have "GenerateReleaseNotes fuel E c = Some ?res"
    using assms(1) by (simp add: GenerateReleaseNotes_def)
  moreover have "stored fx0 = []" using assms(1) by (rule collect_shas_stored)
  ultimately show ?thesis
    using classify_and_store_failed [OF assms(2), where fx = fx0]
    by (intro exI [of _ "snd ?res"]) (auto simp: prod_eq_iff)
qed

theorem classification_error_after_store_witness:
  "\<exists>fx. GenerateReleaseNotes 0 failing_env example_config =
           Some (Inl (RetrievePRsFailed ''timeout''), fx) \<and>
         stored fx = [(''state.json'', [(20, [(5, example_pr)])], [], [''b'', ''a''])] \<and>
         last (printed fx) = ''Unable to store state: disk full + \<newline>''"
proof -
  have l: "collect_shas 0 failing_env example_config =
      Some (Inr (example_config, [], [], [''c'', ''b'', ''a'']),
            printer ''Found state file, resuming from stored state\<newline>'' no_effects)"
    by (simp add: collect_shas_def failing_env_def)
  have g: "GeneratePatchRelease failing_env (Owner example_config) (Repo example_config) [] []
      [''c'', ''b'', ''a''] = (([(20, [(5, example_pr)])], [], [''b'', ''a'']), Some ''timeout'')"
    by (simp add: failing_env_def)
  have s: "StoreState failing_env (StateFile example_config) [(20, [(5, example_pr)])] []
      [''b'', ''a''] = Some ''disk full''"
    by (simp add: failing_env_def)
  from classification_error_after_store [OF l g] s show ?thesis
    by (auto simp: example_config_def)
qed

subsection \<open>The walk over a linear history\<close>

lemma takeWhile_distinct_nth:
  "distinct h \<Longrightarrow> j < length h \<Longrightarrow> takeWhile (\<lambda>x. x \<noteq> h ! j) h = take j h"
  by (rule takeWhile_eq_take_P_nth) (auto simp: nth_eq_iff_index_eq)

lemma compare_window_nth:
  assumes "distinct h" and "j < length h"
  shows "compare_window h N (h ! j) = Inr (drop (Suc j - N) (take (Suc j) h))"
  using assms
  by (simp add: compare_window_def takeWhile_distinct_nth take_Suc_conv_app_nth Let_def min_def)

lemma append_shas_nat:
  "k < length commits \<Longrightarrow> [] \<notin> set commits \<Longrightarrow>
   append_shas commits (int k) acc = Inr (acc @ rev (tl (take (Suc k) commits)))"
proof (induction k arbitrary: acc)
  case 0
  then show ?case by (simp add: append_shas.simps take_Suc split: list.splits)
next
  case (Suc k)
  from Suc.prems have ne: "commits ! Suc k \<noteq> []" by (metis nth_mem)
  have "take (Suc (Suc k)) commits = take (Suc k) commits @ [commits ! Suc k]"
    using Suc.prems(1) by (simp add: take_Suc_conv_app_nth)
  moreover have "take (Suc k) commits \<noteq> []" using Suc.prems(1) by auto
  ultimately have d: "rev (tl (take (Suc (Suc k)) commits))
                        = commits ! Suc k # rev (tl (take (Suc k) commits))"
    by simp
  have "append_shas commits (int (Suc k)) acc = append_shas commits (int k) (acc @ [commits ! Suc k])"
    using Suc.prems(1) ne by (subst append_shas.simps) (simp add: Let_def nat_add_distrib)
  also have "\<dots> = Inr ((acc @ [commits ! Suc k]) @ rev (tl (take (Suc k) commits)))"
    using Suc.prems by (intro Suc.IH) simp_all
  finally show ?case unfolding d by simp
qed

text \<open>The page that the service returns for the head \<open>h ! j\<close>.\<close>

lemma page_facts:
  assumes "j < length h" and "2 \<le> N" and "1 \<le> j"
  defines "page \<equiv> drop (Suc j - N) (take (Suc j) h)"
  shows "page \<noteq> []" and "last page = h ! j" and "hd page = h ! (Suc j - N)"
    and "length page = Suc j - (Suc j - N)" and "set page \<subseteq> set h"
proof -
  from assms(1-3) have len: "length page = Suc j - (Suc j - N)" by (simp add: page_def)
  with assms(2,3) show ne: "page \<noteq> []" by (cases page) auto
  show "length page = Suc j - (Suc j - N)" by (rule len)
  have "last page = last (take (Suc j) h)"
    using ne unfolding page_def by (simp add: last_drop)
  also have "\<dots> = h ! j" using assms(1) by (simp add: take_Suc_conv_app_nth)
  finally show "last page = h ! j" .
  show "hd page = h ! (Suc j - N)"
    using assms(1-3) unfolding page_def by (simp add: hd_drop_conv_nth)
  show "set page \<subseteq> set h"
    unfolding page_def by (meson set_drop_subset set_take_subset subset_trans)
qed


lemma drop_split:
  assumes "k \<le> j" and "j \<le> length xs"
  shows "drop k xs = drop k (take j xs) @ drop j xs"
proof -
  have "drop k xs = drop k (take j xs @ drop j xs)" by (simp only: append_take_drop_id)
  also have "\<dots> = drop k (take j xs) @ drop (k - length (take j xs)) (drop j xs)"
    by (simp only: drop_append)
  also have "k - length (take j xs) = 0" using assms by simp
  finally show ?thesis by simp
qed

lemma walk_iteration_next_page:
  assumes "distinct h" and "[] \<notin> set h" and "1 \<le> j" and "j < length h" and "2 \<le> N"
    and "shas st = rev (drop j h)" and "cont st" and "prevHead st \<noteq> h ! j"
  shows "walk_iteration st (drop (Suc j - N) (take (Suc j) h)) =
           Inr (False, st\<lparr>wcfg := (wcfg st)\<lparr>Head := h ! Suc (Suc j - N)\<rparr>,
                          shas := rev (drop (Suc (Suc j - N)) h), cont := True,
                          prevHead := h ! j\<rparr>)"
proof -
  define m where "m = Suc j - N"
  define page where "page = drop m (take (Suc j) h)"
  define k where "k = length page - 2"
  note facts = page_facts [OF assms(4,5,3), folded m_def, folded page_def]
  from facts(4) assms(3,5) have len: "length page = Suc (Suc k)" and j: "j = Suc k + m"
    by (simp_all add: k_def m_def)
  from facts(5) assms(2) have ids: "[] \<notin> set page" by auto
  have m: "Suc m \<le> j" using j by simp
  have "take (Suc k) page = drop m (take (Suc k + m) (take (Suc j) h))"
    unfolding page_def by (simp only: take_drop)
  also have "take (Suc k + m) (take (Suc j) h) = take j h" using j by simp
  finally have "tl (take (Suc k) page) = drop (Suc m) (take j h)"
    by (simp add: tl_drop drop_Suc)
  moreover have "drop (Suc m) h = drop (Suc m) (take j h) @ drop j h"
    using m assms(4) by (intro drop_split) simp_all
  ultimately have acc: "shas st @ rev (tl (take (Suc k) page)) = rev (drop (Suc m) h)"
    using assms(6) by simp
  have "append_shas page (int k) (shas st) = Inr (shas st @ rev (tl (take (Suc k) page)))"
    using len ids by (intro append_shas_nat) simp_all
  moreover have "int (length page) - 1 - 1 = int k" using len by simp
  ultimately have run: "append_shas page (int (length page) - 1 - 1) (shas st)
      = Inr (rev (drop (Suc m) h))"
    by (simp only: acc)
  have ne: "rev (drop (Suc m) h) \<noteq> []" using m assms(4) by simp
  have "last (rev (drop (Suc m) h)) = h ! Suc m"
    using m assms(4) by (simp add: last_rev hd_drop_conv_nth)
  with run ne facts(1,2) assms(7,8)
  have "walk_iteration st page =
           Inr (False, st\<lparr>wcfg := (wcfg st)\<lparr>Head := h ! Suc m\<rparr>,
                          shas := rev (drop (Suc m) h), cont := True,
                          prevHead := h ! j\<rparr>)"
    by (simp add: walk_iteration_def Let_def)
  then show ?thesis by (simp only: page_def m_def)
qed

lemma walk_iteration_first_page:
  assumes "[] \<notin> set h" and "2 \<le> length h" and "2 \<le> N"
  shows "walk_iteration \<lparr>wcfg = c, shas = [], cont = False, prevHead = []\<rparr>
           (drop (length h - N) h) =
           Inr (False, \<lparr>wcfg = c\<lparr>Head := h ! Suc (length h - N)\<rparr>,
                        shas = rev (drop (Suc (length h - N)) h), cont = True,
                        prevHead = last h\<rparr>)"
proof -
  define m where "m = length h - N"
  define page where "page = drop m h"
  define k where "k = length page - 1"
  from assms(2,3) have len: "length page = Suc k" and k: "1 \<le> k"
    by (simp_all add: k_def page_def m_def)
  then have ne: "page \<noteq> []" by auto
  have ids: "[] \<notin> set page"
    using assms(1) unfolding page_def by (meson set_drop_subset subsetD)
  with ne have stop: "last page \<noteq> []" by (metis last_in_set)
  have m: "Suc m < length h" using assms(2,3) by (simp add: m_def)
  then have lastp: "last page = last h" unfolding page_def by (simp add: last_drop)
  have "append_shas page (int k) [] = Inr ([] @ rev (tl (take (Suc k) page)))"
    using len ids by (intro append_shas_nat) simp_all
  moreover have "tl (take (Suc k) page) = drop (Suc m) h"
    using len unfolding page_def by (simp add: tl_drop drop_Suc)
  moreover have "int (length page) - 1 = int k" using len by simp
  ultimately have run: "append_shas page (int (length page) - 1) [] = Inr (rev (drop (Suc m) h))"
    by (simp only: append_Nil)
  have "last (rev (drop (Suc m) h)) = h ! Suc m"
    using m by (simp add: last_rev hd_drop_conv_nth)
  moreover have "rev (drop (Suc m) h) \<noteq> []" using m by simp
  ultimately have "walk_iteration \<lparr>wcfg = c, shas = [], cont = False, prevHead = []\<rparr> page =
           Inr (False, \<lparr>wcfg = c\<lparr>Head := h ! Suc m\<rparr>,
                        shas = rev (drop (Suc m) h), cont = True, prevHead = last h\<rparr>)"
    using run ne stop lastp by (simp add: walk_iteration_def Let_def)
  then show ?thesis by (simp only: page_def m_def)
qed

lemma walk_iteration_last_page:
  assumes "[] \<notin> set h" and "2 \<le> length h"
    and "shas st = rev (drop 1 h)" and "prevHead st = h ! 1"
  shows "walk_iteration st (take 2 h) = Inr (True, st\<lparr>shas := rev h\<rparr>)"
proof -
  from assms(2) obtain a b t where h: "h = a # b # t"
    by (cases h; cases "tl h") auto
  with assms(1) have "a \<noteq> []" by auto
  with h assms(3,4) show ?thesis
    by (simp add: walk_iteration_def numeral_2_eq_2)
qed


lemma commit_walk_stalled:
  assumes "distinct h" and "[] \<notin> set h" and "2 \<le> length h" and "2 \<le> N"
    and api: "\<And>n head. CompareCommits E n (Owner c) (Repo c) (Base c) head = compare_window h N head"
    and "Owner (wcfg st) = Owner c" and "Repo (wcfg st) = Repo c" and "Base (wcfg st) = Base c"
    and "Head (wcfg st) = h ! 1" and "shas st = rev (drop 1 h)" and "prevHead st = h ! 1"
  shows "\<exists>st' fx'. commit_walk (Suc fuel) E st fx = Some (Inr st', fx') \<and> shas st' = rev h"
proof -
  from assms(3) have one: "1 < length h" by simp
  have "compare_window h N (h ! 1) = Inr (drop (Suc 1 - N) (take (Suc 1) h))"
    using assms(1) one by (rule compare_window_nth)
  also have "drop (Suc 1 - N) (take (Suc 1) h) = take 2 h"
    using assms(4) by (simp add: numeral_2_eq_2)
  finally have "CompareCommits E (length (compared fx)) (Owner (wcfg st)) (Repo (wcfg st))
      (Base (wcfg st)) (Head (wcfg st)) = Inr (take 2 h)"
    using assms(6-9) by (simp add: api)
  from commit_walk_break [OF this walk_iteration_last_page [OF assms(2,3,10,11)], of fuel]
  show ?thesis by simp
qed

lemma commit_walk_progress:
  assumes "distinct h" and "[] \<notin> set h" and "3 \<le> N"
    and api: "\<And>n head. CompareCommits E n (Owner c) (Repo c) (Base c) head = compare_window h N head"
  shows "1 \<le> j \<Longrightarrow> j < length h \<Longrightarrow>
     Owner (wcfg st) = Owner c \<Longrightarrow> Repo (wcfg st) = Repo c \<Longrightarrow> Base (wcfg st) = Base c \<Longrightarrow>
     Head (wcfg st) = h ! j \<Longrightarrow> shas st = rev (drop j h) \<Longrightarrow> cont st \<Longrightarrow>
     prevHead st \<noteq> h ! j \<Longrightarrow> j < fuel \<Longrightarrow>
     \<exists>st' fx'. commit_walk fuel E st fx = Some (Inr st', fx') \<and> shas st' = rev h"
proof (induction j arbitrary: st fx fuel rule: less_induct)
  case (less j)
  from less.prems(10) obtain f where fuel: "fuel = Suc f" and f: "j \<le> f"
    by (cases fuel) auto
  from assms(3) have N2: "2 \<le> N" by simp
  define j' where "j' = Suc (Suc j - N)"
  define st' where "st' = st\<lparr>wcfg := (wcfg st)\<lparr>Head := h ! j'\<rparr>, shas := rev (drop j' h),
      cont := True, prevHead := h ! j\<rparr>"
  have j'1: "1 \<le> j'" by (simp add: j'_def)
  have j'j: "j' \<le> j" using less.prems(1) assms(3) by (simp add: j'_def)
  have "compare_window h N (h ! j) = Inr (drop (Suc j - N) (take (Suc j) h))"
    using assms(1) less.prems(2) by (rule compare_window_nth)
  then have resp: "CompareCommits E (length (compared fx)) (Owner (wcfg st)) (Repo (wcfg st))
      (Base (wcfg st)) (Head (wcfg st)) = Inr (drop (Suc j - N) (take (Suc j) h))"
    using less.prems(3-6) by (simp add: api)
  have "walk_iteration st (drop (Suc j - N) (take (Suc j) h)) = Inr (False, st')"
    unfolding st'_def j'_def
    by (rule walk_iteration_next_page [OF assms(1,2) less.prems(1,2) N2 less.prems(7,8,9)])
  from commit_walk_continue [OF resp this, of f]
  have step: "commit_walk fuel E st fx = commit_walk f E st' (log_compare (wcfg st) fx)"
    by (simp add: fuel)
  have fields: "Owner (wcfg st') = Owner c" "Repo (wcfg st') = Repo c" "Base (wcfg st') = Base c"
    "Head (wcfg st') = h ! j'" "shas st' = rev (drop j' h)" "cont st'" "prevHead st' = h ! j"
    using less.prems(3-5) by (simp_all add: st'_def)
  show ?case
  proof (cases "j' = j")
    case True
    with less.prems(1) assms(3) have j1: "j = 1" by (simp add: j'_def split: if_splits) 
    with less.prems(2) have len: "2 \<le> length h" by simp
    from f j1 obtain f' where f': "f = Suc f'" by (cases f) auto
    from commit_walk_stalled [OF assms(1,2) len N2 api fields(1,2,3), of f' "log_compare (wcfg st) fx"]
      fields(4,5,7) True j1
    show ?thesis by (simp add: step f')
  next
    case False
    with j'j have lt: "j' < j" by simp
    with less.prems(2) have j'len: "j' < length h" by simp
    from assms(1) lt less.prems(2) j'len have "h ! j \<noteq> h ! j'"
      by (simp add: nth_eq_iff_index_eq)
    with fields(7) have stopped: "prevHead st' \<noteq> h ! j'" by simp
    from lt f have "j' < f" by simp
    from less.IH [OF lt j'1 j'len fields(1,2,3,4,5,6) stopped this, of "log_compare (wcfg st) fx"]
    show ?thesis by (simp add: step)
  qed
qed

text \<open>
  The pages on which the walk does return the history. Let the history hold at least two
  commits with distinct, non-empty identifiers, and let the comparison service answer
  every request with the last commits of the history up to the requested head, at most
  \<open>pageSize\<close> of them, with \<open>pageSize\<close> at least 3. Then consecutive pages overlap in two
  commits (the new head, which the walk drops from the later page, and the commit
  before it, which the walk did not record from the earlier page), the last page is
  asked for twice, and the walk started at the newest commit ends within one comparison
  more than the history has commits. The identifiers it hands to classification are
  the history, newest first.
\<close>

lemma walk_returns_history:
  assumes "distinct history" and "[] \<notin> set history" and "2 \<le> length history"
    and "3 \<le> pageSize"
    and "\<not> StatFile E (StateFile c)"
    and api: "\<And>n head. CompareCommits E n (Owner c) (Repo c) (Base c) head =
                 compare_window history pageSize head"
    and "Head c = last history"
    and "length history < fuel"
  shows "\<exists>c' fx. collect_shas fuel E c = Some (Inr (c', [], [], rev history), fx) \<and>
           GenerateReleaseNotes fuel E c = Some (classify_and_store E c' [] [] (rev history) fx)"
proof -
  let ?n = "length history"
  let ?st = "\<lparr>wcfg = c, shas = [], cont = False, prevHead = []\<rparr>"
  from assms(8) obtain f where fuel: "fuel = Suc f" and f: "?n \<le> f" by (cases fuel) auto
  from assms(4) have N2: "2 \<le> pageSize" by simp
  from assms(3) have ne: "history \<noteq> []" by auto
  then have last: "last history = history ! (?n - 1)" by (rule last_conv_nth)
  define j where "j = Suc (?n - pageSize)"
  define st where "st = \<lparr>wcfg = c\<lparr>Head := history ! j\<rparr>, shas = rev (drop j history),
      cont = True, prevHead = last history\<rparr>"
  have j1: "1 \<le> j" and jn: "j < ?n" using assms(3,4) by (simp_all add: j_def)
  have "compare_window history pageSize (history ! (?n - 1)) =
      Inr (drop (Suc (?n - 1) - pageSize) (take (Suc (?n - 1)) history))"
    using assms(1,3) by (intro compare_window_nth) simp_all
  also have "drop (Suc (?n - 1) - pageSize) (take (Suc (?n - 1)) history) = drop (?n - pageSize) history"
    using assms(3) by simp
  finally have resp: "CompareCommits E (length (compared no_effects)) (Owner (wcfg ?st))
      (Repo (wcfg ?st)) (Base (wcfg ?st)) (Head (wcfg ?st)) = Inr (drop (?n - pageSize) history)"
    using assms(7) last by (simp add: api)
  have "walk_iteration ?st (drop (?n - pageSize) history) = Inr (False, st)"
    unfolding st_def j_def by (rule walk_iteration_first_page [OF assms(2,3) N2])
  from commit_walk_continue [OF resp this, of f]
  have step: "commit_walk fuel E ?st no_effects = commit_walk f E st (log_compare c no_effects)"
    by (simp add: fuel)
  have fields: "Owner (wcfg st) = Owner c" "Repo (wcfg st) = Repo c" "Base (wcfg st) = Base c"
    "Head (wcfg st) = history ! j" "shas st = rev (drop j history)" "cont st"
    "prevHead st = history ! (?n - 1)"
    by (simp_all add: st_def last)
  have "\<exists>st' fx'. commit_walk f E st (log_compare c no_effects) = Some (Inr st', fx') \<and>
          shas st' = rev history"
  proof (cases "j = ?n - 1")
    case True
    with assms(3,4) have j: "j = 1" by (simp add: j_def split: if_splits)
    from f assms(3) obtain f' where f': "f = Suc f'" by (cases f) auto
    from commit_walk_stalled [OF assms(1,2,3) N2 api fields(1,2,3), of f' "log_compare c no_effects"]
      fields(4,5,7) True j
    show ?thesis by (simp add: f')
  next
    case False
    with jn assms(1) have "history ! (?n - 1) \<noteq> history ! j"
      by (simp add: nth_eq_iff_index_eq)
    with fields(7) have stopped: "prevHead st \<noteq> history ! j" by simp
    from jn f have "j < f" by simp
    from commit_walk_progress [OF assms(1,2,4) api j1 jn fields(1,2,3,4,5,6) stopped this]
    show ?thesis .
  qed
  then obtain st' fx' where "commit_walk fuel E ?st no_effects = Some (Inr st', fx')"
    and "shas st' = rev history"
    unfolding step by blast
  with assms(5) have "collect_shas fuel E c = Some (Inr (wcfg st', [], [], rev history), fx')"
    by (simp add: collect_shas_def)
  then show ?thesis by (auto simp: GenerateReleaseNotes_def)
qed


text \<open>A history of seven commits served in pages of three.\<close>

lemma walk_returns_history_example:
  "\<exists>c' fx. collect_shas 8 (mock_env (\<lambda>n. compare_window example_history 3))
              (example_config\<lparr>Head := ''g''\<rparr>) =
            Some (Inr (c', [], [], [''g'', ''f'', ''e'', ''d'', ''c'', ''b'', ''a'']), fx)"
proof -
  let ?E = "mock_env (\<lambda>n. compare_window example_history 3)"
  let ?c = "example_config\<lparr>Head := ''g''\<rparr>"
  have h: "distinct example_history" "[] \<notin> set example_history" "2 \<le> length example_history"
    "(3::nat) \<le> 3" "length example_history < 8" "Head ?c = last example_history"
    by (simp_all add: example_history_def)
  have e: "\<not> StatFile ?E (StateFile ?c)"
    "\<And>n head. CompareCommits ?E n (Owner ?c) (Repo ?c) (Base ?c) head =
        compare_window example_history 3 head"
    by (simp_all add: mock_env_def)
  from walk_returns_history [OF h(1,2,3,4) e h(6,5)]
  show ?thesis by (auto simp: example_history_def)
qed


text \<open>
  Claim C1 says that for every sequence of pages that together cover a history, with
  consecutive pages overlapping by exactly one boundary commit, the walk returns the
  history, newest first, with no identifier twice and none left out. The comment of
  lines 139 to 143 says the same of the code: for the page \<open>6 7 8 9 10\<close> the walk is to
  store \<open>10 9 8 7 6\<close> and to ask for the comparison up to \<open>6\<close>, whose page it is to use
  without the \<open>6\<close> that is already stored. The code does not do this. The loop of line
  144 stops before index 0, so for that page the walk stores \<open>10 9 8 7\<close> and line 150
  asks for the comparison up to \<open>7\<close>; the oldest commit of a page the walk continues from
  is never recorded from that page, and line 135 drops the newest commit of every later
  page. So on the two pages \<open>c d e\<close> and \<open>a b c\<close>, which cover \<open>a b c d e\<close> and overlap
  in \<open>c\<close>, the walk stores \<open>e d\<close>, asks for the comparison up to \<open>d\<close>, and records the
  boundary commit \<open>c\<close> from neither page; it has not ended when the pages are used up
  and asks for a third comparison. When the service fails then, the walk returns that
  error; when it repeats its last page, the walk returns \<open>e d b a\<close>. A history of a
  single commit, served as one page, ends in the index panic of line 150.
\<close>

theorem overlapping_pages_lose_boundary_commit:
  "map_sum id (\<lambda>(stop, st). (stop, shas st, Head (wcfg st)))
     (walk_iteration \<lparr>wcfg = example_config\<lparr>Head := ''10''\<rparr>, shas = [], cont = False,
                      prevHead = []\<rparr> commented_page) =
     Inr (False, [''10'', ''9'', ''8'', ''7''], ''7'') \<and>
   covers short_history overlapping_pages \<and> distinct short_history \<and>
   map_sum id (\<lambda>(stop, st). (stop, shas st, Head (wcfg st)))
     (walk_iteration \<lparr>wcfg = example_config\<lparr>Head := ''e''\<rparr>, shas = [], cont = False,
                      prevHead = []\<rparr> (hd overlapping_pages)) =
     Inr (False, [''e'', ''d''], ''d'') \<and>
   map_option (\<lambda>(r, fx). (r, compared fx))
     (collect_shas 3 (mock_env (scripted overlapping_pages)) (example_config\<lparr>Head := ''e''\<rparr>)) =
     Some (Inl (CompareCommitsFailed ''v1'' ''b'' ''no more pages''),
           [(''v1'', ''e''), (''v1'', ''d''), (''v1'', ''b'')]) \<and>
   map_option (\<lambda>(r, fx). (map_sum id (\<lambda>(c, b, l, hashes). hashes) r, compared fx))
     (collect_shas 3 (mock_env (scripted (overlapping_pages @ [[''a'', ''b'', ''c'']])))
        (example_config\<lparr>Head := ''e''\<rparr>)) =
     Some (Inr [''e'', ''d'', ''b'', ''a''],
           [(''v1'', ''e''), (''v1'', ''d''), (''v1'', ''b'')]) \<and>
   covers [''a''] [[''a'']] \<and>
   map_option fst
     (collect_shas 1 (mock_env (scripted [[''a'']])) (example_config\<lparr>Head := ''a''\<rparr>)) =
     Some (Inl IndexOutOfRange)"
  by code_simp
section \<open>The note aggregator\<close>

subsection \<open>What the loops compute\<close>

lemma backported_fold:
  "fold (\<lambda>bb b. if Contains bb lastStable then True else b) branches acc
     = (acc \<or> (\<exists>bb \<in> set branches. Contains bb lastStable))"
  by (induction branches arbitrary: acc) auto

lemma backported_iff:
  "backported lastStable branches \<longleftrightarrow> (\<exists>bb \<in> set branches. Contains bb lastStable)"
  by (simp add: backported_def backported_fold)

lemma delete_key_filter:
  "filter (\<lambda>e. fst e \<notin> S) (delete_key k m) = filter (\<lambda>e. fst e \<notin> insert k S) m"
  by (auto simp: delete_key_def intro: filter_cong)

lemma fold_Println: "fold Println xs fx = fx\<lparr>stdout := stdout fx @ xs\<rparr>"
  by (induction xs arbitrary: fx) (simp_all add: Println_def)

lemma fold_Fprintf_stderr:
  "fold (\<lambda>changeLogItem. Fprintf_stderr changeLogItem []) xs fx =
     fx\<lparr>stderr := stderr fx @ map (\<lambda>changeLogItem. (changeLogItem, [])) xs\<rparr>"
  by (induction xs arbitrary: fx) (simp_all add: Fprintf_stderr_def)

lemma range_upstream_eq:
  "range_upstream L b es (items, printedHeader, m, fx) =
     (items @ map (\<lambda>(prID, pr). format_backport b prID pr) (labelled L es),
      printedHeader \<or> labelled L es \<noteq> [],
      filter (\<lambda>e. fst e \<notin> fst ` set (labelled L es)) m,
      if \<not> printedHeader \<and> labelled L es \<noteq> [] then Println (header L) (Println [] fx) else fx)"
proof (induction es arbitrary: items printedHeader m fx)
  case Nil
  then show ?case by (simp add: labelled_def)
next
  case (Cons e es)
  obtain prID pr where e: "e = (prID, pr)" by (cases e)
  show ?case
    by (simp add: e Cons.IH labelled_def delete_key_filter Let_def)
qed

lemma range_listOfPrs_eq:
  "range_listOfPrs L ls es (items, printedHeader, m, fx) =
     (items @ map (\<lambda>(prID, pr). format_pr prID pr) (emitted L ls es),
      printedHeader \<or> emitted L ls es \<noteq> [],
      filter (\<lambda>e. fst e \<notin> fst ` set (emitted L ls es)) m,
      if \<not> printedHeader \<and> emitted L ls es \<noteq> [] then Println (header L) (Println [] fx) else fx)"
proof (induction es arbitrary: items printedHeader m fx)
  case Nil
  then show ?case by (simp add: emitted_def)
next
  case (Cons e es)
  obtain prID pr where e: "e = (prID, pr)" by (cases e)
  show ?case
    by (simp add: e Cons.IH emitted_def delete_key_filter Let_def)
qed

lemma range_leftover_eq:
  "range_leftover L es (items, printedHeader, m, fx) =
     (items @ map (\<lambda>(prID, pr). format_pr prID pr) (labelled L es),
      printedHeader \<or> labelled L es \<noteq> [],
      filter (\<lambda>e. fst e \<notin> fst ` set (labelled L es)) m,
      if \<not> printedHeader \<and> labelled L es \<noteq> [] then Fprintf_stderr (header L) [] fx else fx)"
proof (induction es arbitrary: items printedHeader m fx)
  case Nil
  then show ?case by (simp add: labelled_def)
next
  case (Cons e es)
  obtain prID pr where e: "e = (prID, pr)" by (cases e)
  show ?case
    by (simp add: e Cons.IH labelled_def delete_key_filter Let_def)
qed

lemma filter_out_selected:
  assumes "distinct (map fst m)"
  shows "filter (\<lambda>e. fst e \<notin> fst ` set (filter P m)) m = filter (\<lambda>e. \<not> P e) m"
proof (rule filter_cong [OF refl])
  fix e assume e: "e \<in> set m"
  have "fst e \<in> fst ` set (filter P m) \<longleftrightarrow> P e"
  proof
    assume "fst e \<in> fst ` set (filter P m)"
    then obtain e' where e': "e' \<in> set m" "P e'" "fst e' = fst e" by auto
    with assms e have "e' = e" by (metis eq_key_imp_eq_value prod.collapse)
    with e' show "P e" by simp
  next
    assume "P e"
    with e show "fst e \<in> fst ` set (filter P m)" by auto
  qed
  then show "(fst e \<notin> fst ` set (filter P m)) = (\<not> P e)" by simp
qed


lemma range_backports_eq:
  "list_all (\<lambda>b. distinct (map fst (snd b))) bs \<Longrightarrow>
   range_backports L bs (items, printedHeader, fx) =
     (items @ map (\<lambda>(backportPR, prID, pr). format_backport backportPR prID pr)
                (backport_matches L bs),
      printedHeader \<or> backport_matches L bs \<noteq> [],
      map (\<lambda>(backportPR, m). (backportPR, filter (\<lambda>e. ReleaseLabel (snd e) \<noteq> L) m)) bs,
      if \<not> printedHeader \<and> backport_matches L bs \<noteq> []
      then Println (header L) (Println [] fx) else fx)"
proof (induction bs arbitrary: items printedHeader fx)
  case Nil
  then show ?case by (simp add: backport_matches_def)
next
  case (Cons b bs)
  obtain backportPR m where b: "b = (backportPR, m)" by (cases b)
  from Cons.prems b have d: "distinct (map fst m)"
    and rest: "list_all (\<lambda>b. distinct (map fst (snd b))) bs" by simp_all
  have m: "filter (\<lambda>e. fst e \<notin> fst ` set (labelled L m)) m
             = filter (\<lambda>e. ReleaseLabel (snd e) \<noteq> L) m"
    unfolding labelled_def using filter_out_selected [OF d] by simp
  have bm: "backport_matches L ((backportPR, m) # bs) =
      map (\<lambda>(prID, pr). (backportPR, prID, pr)) (labelled L m) @ backport_matches L bs"
    by (simp add: backport_matches_def)
  show ?case
    by (simp add: b range_upstream_eq Cons.IH [OF rest] m bm split_def comp_def)
qed

lemma collect_category_eq:
  assumes "unique_keys c"
  shows "collect_category L (c, fx) =
     (category_items L c, scanned L c,
      if category_items L c \<noteq> [] then Println (header L) (Println [] fx) else fx)"
proof -
  from assms have inner: "list_all (\<lambda>b. distinct (map fst (snd b))) (prsWithUpstream c)"
    and flat: "distinct (map fst (listOfPrs c))"
    by (simp_all add: unique_keys_def)
  have f: "filter (\<lambda>e. fst e \<notin> fst ` set (emitted L (LastStable (config c)) (listOfPrs c)))
             (listOfPrs c)
           = filter (\<lambda>e. \<not> (ReleaseLabel (snd e) = L \<and>
                         \<not> assumed_released (LastStable (config c)) (snd e))) (listOfPrs c)"
    unfolding emitted_def using filter_out_selected [OF flat] by simp
  show ?thesis
    by (simp add: collect_category_def range_backports_eq [OF inner] range_listOfPrs_eq f
        category_items_def scanned_def)
qed

lemma print_category_eq:
  assumes "unique_keys c"
  shows "print_category lower L (c, fx) = (scanned L c, fx\<lparr>stdout := stdout fx @ section_lines lower L c\<rparr>)"
  by (simp add: print_category_def collect_category_eq [OF assms] fold_Println section_lines_def
      Println_def)

lemma unique_keys_scanned: "unique_keys c \<Longrightarrow> unique_keys (scanned L c)"
  by (auto simp: unique_keys_def scanned_def distinct_map_filter list_all_iff comp_def split_def)

lemma labelled_filter_other:
  "L' \<noteq> L \<Longrightarrow> labelled L' (filter (\<lambda>e. ReleaseLabel (snd e) \<noteq> L) m) = labelled L' m"
  by (auto simp: labelled_def intro: filter_cong)

lemma backport_matches_scanned:
  "L' \<noteq> L \<Longrightarrow> backport_matches L' (prsWithUpstream (scanned L c))
                  = backport_matches L' (prsWithUpstream c)"
  by (simp add: backport_matches_def scanned_def comp_def split_def labelled_filter_other)

lemma emitted_scanned:
  "L' \<noteq> L \<Longrightarrow> emitted L' (LastStable (config (scanned L c))) (listOfPrs (scanned L c))
                  = emitted L' (LastStable (config c)) (listOfPrs c)"
  by (auto simp: emitted_def scanned_def intro: filter_cong)

lemma section_lines_scanned:
  "L' \<noteq> L \<Longrightarrow> section_lines lower L' (scanned L c) = section_lines lower L' c"
  by (simp add: section_lines_def category_items_def backport_matches_scanned emitted_scanned)

lemma fold_print_category:
  "unique_keys c \<Longrightarrow> distinct Ls \<Longrightarrow>
   fold (print_category lower) Ls (c, fx) =
     (fold scanned Ls c, fx\<lparr>stdout := stdout fx @ concat (map (\<lambda>L. section_lines lower L c) Ls)\<rparr>)"
proof (induction Ls arbitrary: c fx)
  case Nil
  then show ?case by simp
next
  case (Cons L Ls)
  have "map (\<lambda>L'. section_lines lower L' (scanned L c)) Ls = map (\<lambda>L'. section_lines lower L' c) Ls"
    using Cons.prems(2) by (auto intro!: map_cong section_lines_scanned)
  with Cons.IH [OF unique_keys_scanned [OF Cons.prems(1)], of L] Cons.prems
  show ?case by (simp add: print_category_eq)
qed

lemma config_scanned: "config (scanned L c) = config c"
  by (simp add: scanned_def)

lemma listOfPrs_scanned:
  "listOfPrs (scanned L c) =
     filter (\<lambda>e. \<not> (ReleaseLabel (snd e) = L \<and>
                     \<not> assumed_released (LastStable (config c)) (snd e))) (listOfPrs c)"
  by (simp add: scanned_def)

lemma config_fold_scanned: "config (fold scanned Ls c) = config c"
  by (induction Ls arbitrary: c) (simp_all add: config_scanned)

lemma listOfPrs_fold_scanned:
  "listOfPrs (fold scanned Ls c) =
     filter (\<lambda>e. \<not> (ReleaseLabel (snd e) \<in> set Ls \<and>
                     \<not> assumed_released (LastStable (config c)) (snd e))) (listOfPrs c)"
proof (induction Ls arbitrary: c)
  case Nil
  then show ?case by simp
next
  case (Cons L Ls)
  have "listOfPrs (fold scanned (L # Ls) c) = listOfPrs (fold scanned Ls (scanned L c))"
    by simp
  also have "\<dots> = filter (\<lambda>e. \<not> (ReleaseLabel (snd e) \<in> set Ls \<and>
                     \<not> assumed_released (LastStable (config c)) (snd e)))
                   (listOfPrs (scanned L c))"
    by (simp only: Cons.IH config_scanned)
  also have "\<dots> = filter (\<lambda>e. \<not> (ReleaseLabel (snd e) \<in> set (L # Ls) \<and>
                     \<not> assumed_released (LastStable (config c)) (snd e))) (listOfPrs c)"
    by (auto simp: listOfPrs_scanned intro: filter_cong)
  finally show ?case .
qed

lemma distinct_releaseNotesOrder: "distinct releaseNotesOrder"
  by (simp add: releaseNotesOrder_def)

lemma print_sections_eq:
  assumes "unique_keys c"
  shows "print_sections lower c =
     (fold scanned releaseNotesOrder c,
      no_effects\<lparr>stdout := ''Summary of Changes'' # ''------------------'' #
                    concat (map (\<lambda>L. section_lines lower L c) releaseNotesOrder)\<rparr>)"
  by (simp add: print_sections_def fold_print_category [OF assms distinct_releaseNotesOrder]
      Println_def no_effects_def)


lemma print_leftover_eq:
  assumes "distinct (map fst (listOfPrs c))"
  shows "print_leftover lower L (c, fx) =
     (c\<lparr>listOfPrs := filter (\<lambda>e. ReleaseLabel (snd e) \<noteq> L) (listOfPrs c)\<rparr>,
      fx\<lparr>stderr := stderr fx @ leftover_lines lower L (labelled L (listOfPrs c))\<rparr>)"
proof -
  have f: "filter (\<lambda>e. fst e \<notin> fst ` set (labelled L (listOfPrs c))) (listOfPrs c)
             = filter (\<lambda>e. ReleaseLabel (snd e) \<noteq> L) (listOfPrs c)"
    unfolding labelled_def using filter_out_selected [OF assms] by simp
  show ?thesis
    by (simp add: print_leftover_def range_leftover_eq f fold_Fprintf_stderr leftover_lines_def
        Fprintf_stderr_def)
qed

lemma fold_print_leftover:
  "distinct (map fst (listOfPrs c)) \<Longrightarrow> distinct Ls \<Longrightarrow>
   fold (print_leftover lower) Ls (c, fx) =
     (c\<lparr>listOfPrs := filter (\<lambda>e. ReleaseLabel (snd e) \<notin> set Ls) (listOfPrs c)\<rparr>,
      fx\<lparr>stderr := stderr fx @ concat (map (\<lambda>L. leftover_lines lower L (labelled L (listOfPrs c))) Ls)\<rparr>)"
proof (induction Ls arbitrary: c fx)
  case Nil
  then show ?case by simp
next
  case (Cons L Ls)
  let ?c = "c\<lparr>listOfPrs := filter (\<lambda>e. ReleaseLabel (snd e) \<noteq> L) (listOfPrs c)\<rparr>"
  have d: "distinct (map fst (listOfPrs ?c))"
    using Cons.prems(1) by (simp add: distinct_map_filter)
  have same: "map (\<lambda>L'. leftover_lines lower L' (labelled L' (listOfPrs ?c))) Ls
            = map (\<lambda>L'. leftover_lines lower L' (labelled L' (listOfPrs c))) Ls"
  proof (rule map_cong [OF refl])
    fix L' assume "L' \<in> set Ls"
    with Cons.prems(2) have "L' \<noteq> L" by auto
    then show "leftover_lines lower L' (labelled L' (listOfPrs ?c))
             = leftover_lines lower L' (labelled L' (listOfPrs c))"
      by (simp add: labelled_filter_other)
  qed
  have rest: "filter (\<lambda>e. ReleaseLabel (snd e) \<notin> set Ls) (listOfPrs ?c)
            = filter (\<lambda>e. ReleaseLabel (snd e) \<notin> set (L # Ls)) (listOfPrs c)"
    by (auto intro: filter_cong)
  from Cons.prems(2) have "distinct Ls" by simp
  from Cons.IH [OF d this, of "fx\<lparr>stderr := stderr fx @ leftover_lines lower L (labelled L (listOfPrs c))\<rparr>"]
  show ?case
    unfolding same rest by (simp add: print_leftover_eq [OF Cons.prems(1)])
qed

lemma unique_keys_fold_scanned: "unique_keys c \<Longrightarrow> unique_keys (fold scanned Ls c)"
  by (induction Ls arbitrary: c) (simp_all add: unique_keys_scanned)

lemma PrintReleaseNotes_eq:
  assumes "unique_keys c"
  defines "left \<equiv> listOfPrs (fold scanned releaseNotesOrder c)"
  shows "snd (PrintReleaseNotes lower c) =
     no_effects
       \<lparr>stdout := ''Summary of Changes'' # ''------------------'' #
                    concat (map (\<lambda>L. section_lines lower L c) releaseNotesOrder),
        stderr := (if left = [] then []
                   else (notice, [LastStable (config c)]) #
                        concat (map (\<lambda>L. leftover_lines lower L (labelled L left)) releaseNotesOrder))\<rparr>"
proof -
  have d: "distinct (map fst (listOfPrs (fold scanned releaseNotesOrder c)))"
    using unique_keys_fold_scanned [OF assms(1)] by (simp add: unique_keys_def)
  show ?thesis
    by (simp add: PrintReleaseNotes_def print_sections_eq [OF assms(1)] left_def
        fold_print_leftover [OF d distinct_releaseNotesOrder] config_fold_scanned
        Fprintf_stderr_def no_effects_def)
qed

subsection \<open>Removal from the flat mapping\<close>

lemma emitted_after_scan:
  "emitted L' (LastStable (config c)) (listOfPrs (scanned L c)) =
     (if L' = L then [] else emitted L' (LastStable (config c)) (listOfPrs c))"
proof (cases "L' = L")
  case True
  then show ?thesis by (auto simp: emitted_def listOfPrs_scanned filter_empty_conv)
next
  case False
  from emitted_scanned [OF this, of c] show ?thesis by (simp add: config_scanned False)
qed

lemma unique_keys_example: "unique_keys example_changelog"
  by (simp add: unique_keys_def example_changelog_def)

lemma example_labels:
  "ReleaseLabel example_pr = ''release-note/minor''"
  "ReleaseLabel fix_pr = ''release-note/bug''"
  "ReleaseLabel released_pr = ''release-note/bug''"
  "ReleaseLabel unlabelled_pr = ''kind/cleanup''"
  by (simp_all add: example_pr_def fix_pr_def released_pr_def unlabelled_pr_def)

lemma sort_items_short: "sort_items lower [] = []" "sort_items lower [x] = [x]"
  by (simp_all add: sort_items_def)

text \<open>
  Claim C2 says that every entry of the flat mapping whose label matches the category
  being scanned is removed from the mapping, whether it was emitted or skipped as
  already backported to the last stable branch. The \<open>continue\<close> of line 220 comes before
  the \<open>delete\<close> of line 233: PR 11 carries the label of the scanned category and a
  backport branch \<open>v1.0\<close>, it is skipped, it is still in the mapping after the scan, and
  the second block of \<open>PrintReleaseNotes\<close> processes it once more.
\<close>

theorem skipped_entry_stays_in_mapping:
  "\<forall>lower.
     ReleaseLabel released_pr = ''release-note/bug'' \<and>
     listOfPrs (fst (print_category lower ''release-note/bug'' (example_changelog, no_effects))) =
       [(11, released_pr), (12, unlabelled_pr)] \<and>
     stderr (snd (PrintReleaseNotes lower example_changelog)) =
       [(notice, [''1.0'']), (''**Bugfixes:**'', []), (''* Fix Z (#11, @carol)'', [])]"
proof
  fix lower
  have kept: "listOfPrs (scanned ''release-note/bug'' example_changelog) =
      [(11, released_pr), (12, unlabelled_pr)]"
    by code_simp
  have left: "listOfPrs (fold scanned releaseNotesOrder example_changelog) =
      [(11, released_pr), (12, unlabelled_pr)]"
    by code_simp
  have item: "format_pr 11 released_pr = ''* Fix Z (#11, @carol)''"
    and title: "header ''release-note/bug'' = ''**Bugfixes:**''"
    and stable: "LastStable (config example_changelog) = ''1.0''"
    by code_simp+
  have blocks: "concat (map (\<lambda>L. leftover_lines lower L
        (labelled L [(11, released_pr), (12, unlabelled_pr)])) releaseNotesOrder) =
      [(''**Bugfixes:**'', []), (''* Fix Z (#11, @carol)'', [])]"
    by (simp add: releaseNotesOrder_def leftover_lines_def labelled_def example_labels
        sort_items_short item title)
  have "stderr (snd (PrintReleaseNotes lower example_changelog)) =
      [(notice, [''1.0'']), (''**Bugfixes:**'', []), (''* Fix Z (#11, @carol)'', [])]"
    by (simp add: PrintReleaseNotes_eq [OF unique_keys_example] left blocks stable no_effects_def)
  then show "ReleaseLabel released_pr = ''release-note/bug'' \<and>
     listOfPrs (fst (print_category lower ''release-note/bug'' (example_changelog, no_effects))) =
       [(11, released_pr), (12, unlabelled_pr)] \<and>
     stderr (snd (PrintReleaseNotes lower example_changelog)) =
       [(notice, [''1.0'']), (''**Bugfixes:**'', []), (''* Fix Z (#11, @carol)'', [])]"
    by (simp add: print_category_eq [OF unique_keys_example] kept example_labels)
qed

text \<open>
  Claim C2 as the code has it: the scan of a category turns into \<open>changelogItems\<close> the
  matching entries of the inner mappings and the entries of the flat mapping that carry
  the label and are not left out as already released; it removes from the flat mapping
  exactly the entries it emitted and keeps the skipped ones (and those with other
  labels). After the scan no entry of the flat mapping would be emitted by a scan for
  the same label, and what scans for other labels emit is unchanged: no flat entry is
  emitted twice.
\<close>

theorem flat_entry_removed_iff_emitted:
  assumes "unique_keys c"
  shows "fst (collect_category L (c, fx)) =
           map (\<lambda>(backportPR, prID, pr). format_backport backportPR prID pr)
             (backport_matches L (prsWithUpstream c))
           @ map (\<lambda>(prID, pr). format_pr prID pr)
               (filter (\<lambda>e. ReleaseLabel (snd e) = L \<and>
                           \<not> assumed_released (LastStable (config c)) (snd e)) (listOfPrs c)) \<and>
         listOfPrs (fst (print_category lower L (c, fx))) =
           filter (\<lambda>e. \<not> (ReleaseLabel (snd e) = L \<and>
                           \<not> assumed_released (LastStable (config c)) (snd e))) (listOfPrs c) \<and>
         (\<forall>L'. emitted L' (LastStable (config c))
                 (listOfPrs (fst (print_category lower L (c, fx)))) =
                 (if L' = L then [] else emitted L' (LastStable (config c)) (listOfPrs c)))"
proof -
  have after: "fst (print_category lower L (c, fx)) = scanned L c"
    by (simp add: print_category_eq [OF assms])
  have "fst (collect_category L (c, fx)) = category_items L c"
    by (simp add: collect_category_eq [OF assms])
  then have items: "fst (collect_category L (c, fx)) =
           map (\<lambda>(backportPR, prID, pr). format_backport backportPR prID pr)
             (backport_matches L (prsWithUpstream c))
           @ map (\<lambda>(prID, pr). format_pr prID pr)
               (filter (\<lambda>e. ReleaseLabel (snd e) = L \<and>
                           \<not> assumed_released (LastStable (config c)) (snd e)) (listOfPrs c))"
    by (simp add: category_items_def emitted_def)
  have later: "\<forall>L'. emitted L' (LastStable (config c))
                 (listOfPrs (fst (print_category lower L (c, fx)))) =
                 (if L' = L then [] else emitted L' (LastStable (config c)) (listOfPrs c))"
    unfolding after by (rule allI) (rule emitted_after_scan)
  from items later show ?thesis
    by (simp only: after listOfPrs_scanned) simp
qed

theorem flat_entry_removed_iff_emitted_witness:
  "\<forall>lower.
     fst (collect_category ''release-note/bug'' (example_changelog, no_effects)) =
       [''* Fix X (#10, @alice)''] \<and>
     listOfPrs (fst (print_category lower ''release-note/bug'' (example_changelog, no_effects))) =
       [(11, released_pr), (12, unlabelled_pr)] \<and>
     emitted ''release-note/bug'' (LastStable (config example_changelog))
       (listOfPrs (fst (print_category lower ''release-note/bug''
          (example_changelog, no_effects)))) = []"
proof
  fix lower
  have items: "map (\<lambda>(backportPR, prID, pr). format_backport backportPR prID pr)
             (backport_matches ''release-note/bug'' (prsWithUpstream example_changelog))
           @ map (\<lambda>(prID, pr). format_pr prID pr)
               (filter (\<lambda>e. ReleaseLabel (snd e) = ''release-note/bug'' \<and>
                           \<not> assumed_released (LastStable (config example_changelog)) (snd e))
                  (listOfPrs example_changelog)) = [''* Fix X (#10, @alice)'']"
    by code_simp
  have rest: "filter (\<lambda>e. \<not> (ReleaseLabel (snd e) = ''release-note/bug'' \<and>
                           \<not> assumed_released (LastStable (config example_changelog)) (snd e)))
                (listOfPrs example_changelog) = [(11, released_pr), (12, unlabelled_pr)]"
    by code_simp
  note scan = flat_entry_removed_iff_emitted [OF unique_keys_example,
      of "''release-note/bug''" no_effects lower, unfolded items rest]
  from scan [THEN conjunct2, THEN conjunct2, rule_format, of "''release-note/bug''"]
  have "emitted ''release-note/bug'' (LastStable (config example_changelog))
     (listOfPrs (fst (print_category lower ''release-note/bug''
        (example_changelog, no_effects)))) = []"
    by (simp only: simp_thms if_True)
  with scan show "fst (collect_category ''release-note/bug'' (example_changelog, no_effects)) =
       [''* Fix X (#10, @alice)''] \<and>
     listOfPrs (fst (print_category lower ''release-note/bug'' (example_changelog, no_effects))) =
       [(11, released_pr), (12, unlabelled_pr)] \<and>
     emitted ''release-note/bug'' (LastStable (config example_changelog))
       (listOfPrs (fst (print_category lower ''release-note/bug''
          (example_changelog, no_effects)))) = []"
    by blast
qed

subsection \<open>What is left for the diagnostic notice\<close>

text \<open>
  Claim C3 says that after the six scans the entries left in the flat mapping are
  exactly the pull requests left out for a backport branch that contains the last-stable
  string, and that only those are printed in the diagnostic block. Lines 243 to 247 rely
  on this: whatever is left is announced as backported to the last stable branch. The
  code does not keep to it for an entry whose label is none of the six labels, which
  matches no scan. Here the flat mapping holds only PR 12, with the label
  \<open>kind/cleanup\<close> and no backport branch: after the six scans it is still in the
  mapping although it was never left out as released, and the notice is written with
  no entry under it.
\<close>

theorem unlabelled_entry_remains:
  "\<forall>lower.
     listOfPrs (fst (print_sections lower unlabelled_changelog)) = [(12, unlabelled_pr)] \<and>
     BackportBranches unlabelled_pr = [] \<and>
     assumed_released (LastStable (config unlabelled_changelog)) unlabelled_pr = False \<and>
     stderr (snd (PrintReleaseNotes lower unlabelled_changelog)) = [(notice, [''1.0''])]"
proof
  fix lower
  have keys: "unique_keys unlabelled_changelog"
    by (simp add: unique_keys_def unlabelled_changelog_def)
  have left: "listOfPrs (fold scanned releaseNotesOrder unlabelled_changelog) =
      [(12, unlabelled_pr)]"
    by code_simp
  have stable: "LastStable (config unlabelled_changelog) = ''1.0''"
    and branches: "BackportBranches unlabelled_pr = []"
    and kept: "assumed_released (LastStable (config unlabelled_changelog)) unlabelled_pr = False"
    by code_simp+
  have blocks: "concat (map (\<lambda>L. leftover_lines lower L (labelled L [(12, unlabelled_pr)]))
      releaseNotesOrder) = []"
    by (simp add: releaseNotesOrder_def leftover_lines_def labelled_def example_labels
        sort_items_short)
  have "stderr (snd (PrintReleaseNotes lower unlabelled_changelog)) = [(notice, [''1.0''])]"
    by (simp add: PrintReleaseNotes_eq [OF keys] left blocks stable no_effects_def)
  with branches kept
  show "listOfPrs (fst (print_sections lower unlabelled_changelog)) = [(12, unlabelled_pr)] \<and>
     BackportBranches unlabelled_pr = [] \<and>
     assumed_released (LastStable (config unlabelled_changelog)) unlabelled_pr = False \<and>
     stderr (snd (PrintReleaseNotes lower unlabelled_changelog)) = [(notice, [''1.0''])]"
    by (simp add: print_sections_eq [OF keys] left)
qed

text \<open>
  What is left in general: the entries that were left out as already released on the
  last stable branch and the entries whose label is none of the six labels. When that is
  not empty, the second block calls \<open>fmt.Fprintf\<close> with the notice and then, label by
  label, with the header and the sorted items of the entries with that label that were
  left out as already released.
\<close>

lemma leftover_is_released_or_unlabelled:
  assumes "unique_keys c"
  shows "listOfPrs (fst (print_sections lower c)) =
           filter (\<lambda>e. ReleaseLabel (snd e) \<notin> set releaseNotesOrder \<or>
                       assumed_released (LastStable (config c)) (snd e)) (listOfPrs c) \<and>
         stderr (snd (PrintReleaseNotes lower c)) =
           (if listOfPrs (fst (print_sections lower c)) = [] then []
            else (notice, [LastStable (config c)]) #
                 concat (map (\<lambda>L. leftover_lines lower L
                                (filter (\<lambda>e. ReleaseLabel (snd e) = L \<and>
                                            assumed_released (LastStable (config c)) (snd e))
                                   (listOfPrs c)))
                           releaseNotesOrder))"
proof -
  let ?left = "listOfPrs (fold scanned releaseNotesOrder c)"
  have left: "?left = filter (\<lambda>e. ReleaseLabel (snd e) \<notin> set releaseNotesOrder \<or>
                       assumed_released (LastStable (config c)) (snd e)) (listOfPrs c)"
    by (auto simp: listOfPrs_fold_scanned intro: filter_cong)
  have "map (\<lambda>L. leftover_lines lower L (labelled L ?left)) releaseNotesOrder =
        map (\<lambda>L. leftover_lines lower L
                                (filter (\<lambda>e. ReleaseLabel (snd e) = L \<and>
                                            assumed_released (LastStable (config c)) (snd e))
                                   (listOfPrs c))) releaseNotesOrder"
  proof (rule map_cong [OF refl])
    fix L assume "L \<in> set releaseNotesOrder"
    then have "labelled L ?left = filter (\<lambda>e. ReleaseLabel (snd e) = L \<and>
                                            assumed_released (LastStable (config c)) (snd e))
                                   (listOfPrs c)"
      unfolding left labelled_def by (auto intro: filter_cong)
    then show "leftover_lines lower L (labelled L ?left) = leftover_lines lower L
                                (filter (\<lambda>e. ReleaseLabel (snd e) = L \<and>
                                            assumed_released (LastStable (config c)) (snd e))
                                   (listOfPrs c))" by simp
  qed
  then have blocks:
    "concat (map (\<lambda>L. leftover_lines lower L (labelled L ?left)) releaseNotesOrder) =
        concat (map (\<lambda>L. leftover_lines lower L
                                (filter (\<lambda>e. ReleaseLabel (snd e) = L \<and>
                                            assumed_released (LastStable (config c)) (snd e))
                                   (listOfPrs c))) releaseNotesOrder)"
    by (rule arg_cong)
  have sections: "listOfPrs (fst (print_sections lower c)) = ?left"
    by (simp add: print_sections_eq [OF assms])
  have "stderr (snd (PrintReleaseNotes lower c)) =
      (if ?left = [] then []
       else (notice, [LastStable (config c)]) #
            concat (map (\<lambda>L. leftover_lines lower L (labelled L ?left)) releaseNotesOrder))"
    by (simp add: PrintReleaseNotes_eq [OF assms] no_effects_def)
  then have "stderr (snd (PrintReleaseNotes lower c)) =
      (if listOfPrs (fst (print_sections lower c)) = [] then []
       else (notice, [LastStable (config c)]) #
                 concat (map (\<lambda>L. leftover_lines lower L
                                (filter (\<lambda>e. ReleaseLabel (snd e) = L \<and>
                                            assumed_released (LastStable (config c)) (snd e))
                                   (listOfPrs c)))
                           releaseNotesOrder))"
    by (simp only: blocks sections)
  moreover from left have "listOfPrs (fst (print_sections lower c)) =
           filter (\<lambda>e. ReleaseLabel (snd e) \<notin> set releaseNotesOrder \<or>
                       assumed_released (LastStable (config c)) (snd e)) (listOfPrs c)"
    by (simp only: sections)
  ultimately show ?thesis by (rule conjI [rotated])
qed

subsection \<open>Pull requests under several backport PRs\<close>








end
